theory Spec2Isabelle
  imports Main "HOL-Library.Word"
begin

unbundle bit_operations_syntax

section \<open>Data model\<close>

text \<open>Files, chunks and digests are Python \<open>bytes\<close>: lists of 8-bit words.
  Python's unbounded integers are \<open>int\<close>; lengths, positions and bit counts, which
  never go negative in the source, are \<open>nat\<close>.\<close>

type_synonym byte = "8 word"

text \<open>Every \<open>raise\<close> of the source is a value. \<open>SystemExit\<close> carries the message the
  source passes; the other constructors are the library exceptions that
  \<open>struct.pack\<close>, \<open>int.to_bytes\<close>, list indexing and \<open>gzip.decompress\<close> raise.\<close>

datatype error = SystemExit string | StructError | OverflowError | IndexError | GzipError

definition CHUNK_SIZE :: nat where
  "CHUNK_SIZE = 18"

section \<open>Bit writer (\<open>write_bits\<close>, nested in \<open>compress\<close>)\<close>

text \<open>The writer state is the triple \<open>(out_bits, bitbuf, bitlen)\<close> that the source
  threads through every call. \<open>flush_bytes\<close> is the inner \<open>while bitlen >= 8\<close> loop.\<close>

type_synonym bitwriter = "byte list \<times> int \<times> nat"

function flush_bytes :: "bitwriter \<Rightarrow> bitwriter" where
  "flush_bytes (buf_bytes, bitbuf, bitlen) =
     (if bitlen \<ge> 8
      then flush_bytes (buf_bytes @ [word_of_int (bitbuf AND 255)], drop_bit 8 bitbuf, bitlen - 8)
      else (buf_bytes, bitbuf, bitlen))"
  by pat_completeness auto
termination
  by (relation "measure (\<lambda>(b, v, l). l)") auto

declare flush_bytes.simps [simp del]

definition write_bits :: "bitwriter \<Rightarrow> int \<Rightarrow> nat \<Rightarrow> bitwriter" where
  "write_bits w val bits =
     (case w of (buf_bytes, bitbuf, bitlen) \<Rightarrow>
        flush_bytes (buf_bytes,
                     bitbuf OR push_bit bitlen (val AND (push_bit bits 1 - 1)),
                     bitlen + bits))"

text \<open>Writing a sequence of (value, width) fields, in order.\<close>

fun write_fields :: "bitwriter \<Rightarrow> (int \<times> nat) list \<Rightarrow> bitwriter" where
  "write_fields w [] = w"
| "write_fields w ((v, n) # fs) = write_fields (write_bits w v n) fs"

text \<open>The final flush of \<open>compress\<close>: \<open>if bitlen > 0: out_bits.append(bitbuf & 0xFF)\<close>.\<close>

definition finish_bits :: "bitwriter \<Rightarrow> byte list" where
  "finish_bits w =
     (case w of (buf_bytes, bitbuf, bitlen) \<Rightarrow>
        if bitlen > 0 then buf_bytes @ [word_of_int (bitbuf AND 255)] else buf_bytes)"

section \<open>Bit reader (class \<open>BitReader\<close>, nested in \<open>decompress\<close>)\<close>

record BitReader =
  data :: "byte list"
  pos :: nat
  bitbuf :: int
  bitlen :: nat

definition BitReader_init :: "byte list \<Rightarrow> nat \<Rightarrow> BitReader" where
  "BitReader_init d p = \<lparr>data = d, pos = p, bitbuf = 0, bitlen = 0\<rparr>"

text \<open>The \<open>while self.bitlen < n\<close> loop of \<open>read_bits\<close>. The reader is an object that
  the loop mutates before it raises, and \<open>decompress\<close> reads \<open>br.pos\<close> after catching the
  exception, so the failure carries the reader as the raise left it.\<close>

function fill_bits :: "BitReader \<Rightarrow> nat \<Rightarrow> (error \<times> BitReader) + BitReader" where
  "fill_bits br n =
     (if bitlen br < n
      then (if pos br \<ge> length (data br)
            then Inl (SystemExit ''truncated bitstream'', br)
            else fill_bits (br\<lparr>bitbuf := bitbuf br OR push_bit (bitlen br) (uint (data br ! pos br)),
                               pos := pos br + 1,
                               bitlen := bitlen br + 8\<rparr>) n)
      else Inr br)"
  by pat_completeness auto
termination
  by (relation "measure (\<lambda>(br, n). n - bitlen br)") auto

declare fill_bits.simps [simp del]

definition read_bits :: "BitReader \<Rightarrow> nat \<Rightarrow> (error \<times> BitReader) + (int \<times> BitReader)" where
  "read_bits br n =
     (case fill_bits br n of
        Inl e \<Rightarrow> Inl e
      | Inr br' \<Rightarrow>
          Inr (bitbuf br' AND (push_bit n 1 - 1),
               br'\<lparr>bitbuf := drop_bit n (bitbuf br'), bitlen := bitlen br' - n\<rparr>))"

text \<open>Reading a sequence of fields of the given widths, in order; the first failure
  ends the sequence, as the exception does.\<close>

fun read_fields :: "BitReader \<Rightarrow> nat list \<Rightarrow> error + (int list \<times> BitReader)" where
  "read_fields br [] = Inr ([], br)"
| "read_fields br (n # ns) =
     (case read_bits br n of
        Inl (e, _) \<Rightarrow> Inl e
      | Inr (v, br') \<Rightarrow>
          (case read_fields br' ns of
             Inl e \<Rightarrow> Inl e
           | Inr (vs, br'') \<Rightarrow> Inr (v # vs, br'')))"


section \<open>World file and home table\<close>

text \<open>\<open>load_world\<close>: the world file is given by its content. \<open>b[:16]\<close> is the mapping,
  \<open>b[16:32]\<close> the key.\<close>

definition load_world :: "byte list \<Rightarrow> error + (byte list \<times> byte list)" where
  "load_world b =
     (if length b < 32
      then Inl (SystemExit ''world_package.bin must be at least 32 bytes'')
      else Inr (take 16 b, take 16 (drop 16 b)))"

text \<open>\<open>gen_home_from_key\<close>. The digest function \<open>hashlib.sha256(...).digest()\<close> is a
  library function outside the repository; it is the parameter \<open>sha256\<close>.\<close>

definition gen_home_from_key :: "(byte list \<Rightarrow> byte list) \<Rightarrow> byte list \<Rightarrow> byte list list" where
  "gen_home_from_key sha256 key =
     map (\<lambda>i. take CHUNK_SIZE (sha256 (key @ [of_nat i]))) [0..<16]"

section \<open>Chunker (\<open>chunk_file\<close>)\<close>

text \<open>Python's \<open>range(0, n, step)\<close> for a positive step, and the comprehension
  \<open>[d[i:i+CHUNK_SIZE] for i in range(0, len(d), CHUNK_SIZE)]\<close> that both \<open>chunk_file\<close>
  and \<open>decompress\<close> use.\<close>

definition py_range :: "nat \<Rightarrow> nat \<Rightarrow> nat list" where
  "py_range n step = map (\<lambda>k. k * step) [0..<(n + step - 1) div step]"

definition split_chunks :: "byte list \<Rightarrow> byte list list" where
  "split_chunks d = map (\<lambda>i. take CHUNK_SIZE (drop i d)) (py_range (length d) CHUNK_SIZE)"

definition chunk_pad :: "nat \<Rightarrow> nat" where
  "chunk_pad orig_len = nat ((- int orig_len) mod int CHUNK_SIZE)"

definition chunk_file :: "byte list \<Rightarrow> byte list list \<times> nat" where
  "chunk_file d0 =
     (let orig_len = length d0;
          pad = chunk_pad orig_len;
          d = (if pad \<noteq> 0 then d0 @ replicate pad 0 else d0)
      in (split_chunks d, orig_len))"

section \<open>Chunk classification (first loop of \<open>compress\<close>)\<close>

text \<open>\<open>home_index = {h: i for i, h in enumerate(home)}\<close>: a later entry with the same
  bytes overwrites an earlier one.\<close>

definition home_index :: "byte list list \<Rightarrow> (byte list \<rightharpoonup> int)" where
  "home_index home = foldl (\<lambda>m (i, h). m(h \<mapsto> int i)) Map.empty (enumerate 0 home)"

fun classify :: "(byte list \<rightharpoonup> int) \<Rightarrow> byte list list \<Rightarrow> int list \<Rightarrow> byte list list
                  \<Rightarrow> int list \<times> byte list list" where
  "classify hi [] types extras = (types, extras)"
| "classify hi (c # cs) types extras =
     (case hi c of
        Some i \<Rightarrow> classify hi cs (types @ [i]) extras
      | None \<Rightarrow> classify hi cs (types @ [15]) (extras @ [c]))"

section \<open>Run-length encoder (second loop of \<open>compress\<close>)\<close>

definition choose_small_run :: "int \<Rightarrow> int" where
  "choose_small_run rem = (let small_run = 8 in if rem < small_run then rem else small_run)"

definition choose_M :: "int \<Rightarrow> int \<Rightarrow> int" where
  "choose_M rem small_run = min 31 (rem div small_run - 1)"

text \<open>The inner \<open>while rem > 0\<close> loop, with its three branches in the source's order:
  short form, the \<open>M < 0\<close> fallback, extended form.\<close>

function encode_run :: "bitwriter \<Rightarrow> int \<Rightarrow> int \<Rightarrow> bitwriter" where
  "encode_run w t rem =
     (if rem > 0 then
        (if rem \<le> 8 then
           (let F = 0;
                run_minus1 = rem - 1;
                w = write_bits w t 4;
                w = write_bits w F 1;
                w = write_bits w run_minus1 3
            in encode_run w t 0)
         else
           (let small_run = choose_small_run rem;
                M = choose_M rem small_run
            in if M < 0 then
                 (let small_run = rem;
                      w = write_bits w t 4;
                      w = write_bits w 0 1;
                      w = write_bits w (small_run - 1) 3
                  in encode_run w t 0)
               else
                 (let F = 1;
                      w = write_bits w t 4;
                      w = write_bits w F 1;
                      w = write_bits w (small_run - 1) 3;
                      w = write_bits w M 5;
                      used = small_run * (M + 1)
                  in encode_run w t (rem - used))))
      else w)"
  by pat_completeness auto
termination
proof (relation "measure (\<lambda>(w, t, rem). nat rem)")
  show "wf (measure (\<lambda>(w, t, rem). nat rem))" by simp
next
  fix w :: bitwriter and t rem x xa xb xc xd :: int
  assume "0 < rem"
  then show "((x, t, 0), w, t, rem) \<in> measure (\<lambda>(w, t, rem). nat rem)" for x :: bitwriter by simp
next
  fix w :: bitwriter and t rem small_run M :: int
  assume "0 < rem" "\<not> rem \<le> 8" "small_run = choose_small_run rem" "M = choose_M rem small_run" "M < 0"
  then show "((x, t, 0), w, t, rem) \<in> measure (\<lambda>(w, t, rem). nat rem)" for x :: bitwriter by simp
next
  fix w x :: bitwriter and t rem small_run M F used :: int
  assume a: "0 < rem" "\<not> rem \<le> 8" "small_run = choose_small_run rem" "M = choose_M rem small_run" "\<not> M < 0"
     "used = small_run * (M + 1)"
  have "small_run = 8" using a by (simp add: choose_small_run_def)
  then have "0 < used" using a by simp
  then show "((x, t, rem - used), w, t, rem) \<in> measure (\<lambda>(w, t, rem). nat rem)" using a by simp
qed

declare encode_run.simps [simp del]

text \<open>The same loop, recording for each iteration which form it emits instead of
  writing bits: the run-splitting arithmetic on its own.\<close>

datatype sub_run = ShortForm int | Fallback int | Extended int int

function split_run :: "int \<Rightarrow> sub_run list" where
  "split_run rem =
     (if rem > 0 then
        (if rem \<le> 8 then ShortForm rem # split_run 0
         else
           (let small_run = choose_small_run rem;
                M = choose_M rem small_run
            in if M < 0 then Fallback rem # split_run 0
               else Extended small_run M # split_run (rem - small_run * (M + 1))))
      else [])"
  by pat_completeness auto
termination
proof (relation "measure nat")
  show "wf (measure nat)" by simp
next
  fix rem :: int
  assume "0 < rem"
  then show "(0, rem) \<in> measure nat" by simp
next
  fix rem small_run M :: int
  assume "0 < rem" "\<not> rem \<le> 8" "small_run = choose_small_run rem" "M = choose_M rem small_run" "M < 0"
  then show "(0, rem) \<in> measure nat" by simp
next
  fix rem small_run M :: int
  assume a: "0 < rem" "\<not> rem \<le> 8" "small_run = choose_small_run rem" "M = choose_M rem small_run" "\<not> M < 0"
  have "small_run = 8" using a by (simp add: choose_small_run_def)
  then have "0 < small_run * (M + 1)" using a by simp
  then show "(rem - small_run * (M + 1), rem) \<in> measure nat" using a by simp
qed

declare split_run.simps [simp del]

text \<open>The fields each form writes, and the number of chunks it consumes.\<close>

fun sub_run_fields :: "int \<Rightarrow> sub_run \<Rightarrow> (int \<times> nat) list" where
  "sub_run_fields t (ShortForm rem) = [(t, 4), (0, 1), (rem - 1, 3)]"
| "sub_run_fields t (Fallback rem) = [(t, 4), (0, 1), (rem - 1, 3)]"
| "sub_run_fields t (Extended small_run M) = [(t, 4), (1, 1), (small_run - 1, 3), (M, 5)]"

fun sub_run_chunks :: "sub_run \<Rightarrow> int" where
  "sub_run_chunks (ShortForm rem) = rem"
| "sub_run_chunks (Fallback rem) = rem"
| "sub_run_chunks (Extended small_run M) = small_run * (M + 1)"

text \<open>The outer loop: \<open>run_end\<close> is the scan \<open>while j < n and types[j] == t: j += 1\<close>.\<close>

function run_end :: "int list \<Rightarrow> int \<Rightarrow> nat \<Rightarrow> nat" where
  "run_end types t j = (if j < length types \<and> types ! j = t then run_end types t (j + 1) else j)"
  by pat_completeness auto
termination
  by (relation "measure (\<lambda>(types, t, j). length types - j)") auto

declare run_end.simps [simp del]

function encode_loop :: "int list \<Rightarrow> nat \<Rightarrow> bitwriter \<Rightarrow> bitwriter" where
  "encode_loop types i w =
     (if i < length types then
        (let t = types ! i;
             j = run_end types t (i + 1);
             run = int j - int i;
             w = encode_run w t run
         in encode_loop types j w)
      else w)"
  by pat_completeness auto
termination
proof (relation "measure (\<lambda>(types, i, w). length types - i)")
  show "wf (measure (\<lambda>(types, i, w). length types - i))" by simp
next
  fix types :: "int list" and i :: nat and w xc :: bitwriter and x :: int and xa :: nat and xb :: int
  assume a: "i < length types" "x = types ! i" "xa = run_end types x (i + 1)"
  have ge: "j \<le> run_end ts t j" for ts t j
  proof (induction ts t j rule: run_end.induct)
    case (1 ts t j)
    show ?case
    proof (cases "j < length ts \<and> ts ! j = t")
      case True
      then have "run_end ts t j = run_end ts t (j + 1)" by (subst run_end.simps) simp
      then show ?thesis using "1.IH"[OF True] by simp
    next
      case False
      then have "run_end ts t j = j" by (subst run_end.simps) auto
      then show ?thesis by simp
    qed
  qed
  have "i + 1 \<le> xa" using a(3) ge by simp
  then show "((types, xa, xc), types, i, w) \<in> measure (\<lambda>(types, i, w). length types - i)"
    using a(1) by simp
qed

declare encode_loop.simps [simp del]

text \<open>Lines 80--134: the run loop from an empty writer, the 9-bit marker, the final flush.\<close>

definition encode_bitstream :: "int list \<Rightarrow> byte list" where
  "encode_bitstream types =
     (let w = encode_loop types 0 ([], 0, 0);
          w = write_bits w (push_bit 9 1 - 1) 9
      in finish_bits w)"


section \<open>Run-length decoder (first loop of \<open>decompress\<close>)\<close>

text \<open>One iteration's reads: the Type, the flag, and the run-length fields the flag
  selects. An exception of \<open>read_bits\<close> leaves \<open>decompress\<close>, so only the error is kept.\<close>

definition read_run :: "BitReader \<Rightarrow> error + (int \<times> int \<times> BitReader)" where
  "read_run br =
     (case read_bits br 4 of
        Inl (e, _) \<Rightarrow> Inl e
      | Inr (t, br) \<Rightarrow>
          (case read_bits br 1 of
             Inl (e, _) \<Rightarrow> Inl e
           | Inr (F, br) \<Rightarrow>
               if F = 0 then
                 (case read_bits br 3 of
                    Inl (e, _) \<Rightarrow> Inl e
                  | Inr (run_minus1, br) \<Rightarrow> Inr (t, run_minus1 + 1, br))
               else
                 (case read_bits br 3 of
                    Inl (e, _) \<Rightarrow> Inl e
                  | Inr (small_run_minus1, br) \<Rightarrow>
                      (case read_bits br 5 of
                         Inl (e, _) \<Rightarrow> Inl e
                       | Inr (M, br) \<Rightarrow> Inr (t, (small_run_minus1 + 1) * (M + 1), br)))))"

text \<open>The two \<open>for _ in range(run)\<close> loops.\<close>

fun expand_extras :: "nat \<Rightarrow> byte list \<Rightarrow> nat list \<Rightarrow> byte list \<times> nat list" where
  "expand_extras 0 restored extras_positions = (restored, extras_positions)"
| "expand_extras (Suc k) restored extras_positions =
     expand_extras k (restored @ replicate CHUNK_SIZE 0) (extras_positions @ [length restored])"

fun expand_home :: "nat \<Rightarrow> byte list \<Rightarrow> byte list \<Rightarrow> byte list" where
  "expand_home 0 h restored = restored"
| "expand_home (Suc k) h restored = expand_home k h (restored @ h)"

text \<open>The loop \<open>while expanded < chunks_count\<close>. \<open>home[t]\<close> raises \<open>IndexError\<close> outside
  the table.\<close>

function decode_runs :: "byte list list \<Rightarrow> nat \<Rightarrow> BitReader \<Rightarrow> byte list \<Rightarrow> nat list \<Rightarrow> int
                          \<Rightarrow> error + (BitReader \<times> byte list \<times> nat list \<times> int)" where
  "decode_runs home chunks_count br restored extras_positions expanded =
     (if expanded < int chunks_count then
        (case read_run br of
           Inl e \<Rightarrow> Inl e
         | Inr (t, run, br') \<Rightarrow>
             if t = 15 then
               (case expand_extras (nat run) restored extras_positions of
                  (restored', extras_positions') \<Rightarrow>
                    decode_runs home chunks_count br' restored' extras_positions' (expanded + run))
             else if nat t < length home then
               decode_runs home chunks_count br' (expand_home (nat run) (home ! nat t) restored)
                 extras_positions (expanded + run)
             else Inl IndexError)
      else Inr (br, restored, extras_positions, expanded))"
  by pat_completeness auto
termination
proof (relation "measure (\<lambda>(home, chunks_count, br, restored, extras_positions, expanded).
                            nat (int chunks_count - expanded))")
  have nn: "0 \<le> v" if "read_bits b n = Inr (v, b')" for b n v b'
  proof -
    have "(0::int) \<le> push_bit n 1 - 1" by simp
    then have "0 \<le> x AND (push_bit n 1 - 1)" for x :: int by simp
    with that show ?thesis by (auto simp: read_bits_def split: sum.splits)
  qed
  have pos_run: "1 \<le> run" if rr: "read_run b = Inr (t, run, b')" for b t run b'
  proof -
    from rr obtain t' b1 where r1: "read_bits b 4 = Inr (t', b1)"
      by (auto simp: read_run_def split: sum.splits prod.splits)
    from rr r1 obtain F b2 where r2: "read_bits b1 1 = Inr (F, b2)"
      by (auto simp: read_run_def split: sum.splits prod.splits)
    from rr r1 r2 obtain a b3 where r3: "read_bits b2 3 = Inr (a, b3)"
      by (auto simp: read_run_def split: sum.splits prod.splits if_splits)
    have a: "0 \<le> a" using nn[OF r3] .
    show ?thesis
    proof (cases "F = 0")
      case True
      then have "run = a + 1" using rr r1 r2 r3 by (simp add: read_run_def)
      then show ?thesis using a by simp
    next
      case False
      then obtain M b4 where r4: "read_bits b3 5 = Inr (M, b4)"
        using rr r1 r2 r3 by (auto simp: read_run_def split: sum.splits prod.splits)
      have "run = (a + 1) * (M + 1)" using False rr r1 r2 r3 r4 by (simp add: read_run_def)
      moreover have "1 * 1 \<le> (a + 1) * (M + 1)"
        using a nn[OF r4] by (intro mult_mono) simp_all
      ultimately show ?thesis by simp
    qed
  qed
  show "wf (measure (\<lambda>(home, chunks_count, br, restored, extras_positions, expanded).
                            nat (int chunks_count - expanded)))" by simp
  show "((home, chunks_count, br', restored', extras_positions', expanded + run),
          home, chunks_count, br, restored, extras_positions, expanded)
        \<in> measure (\<lambda>(home, chunks_count, br, restored, extras_positions, expanded).
                            nat (int chunks_count - expanded))"
    if "expanded < int chunks_count" "read_run br = Inr x2" "(t, y) = x2" "(run, br') = y"
    for home :: "byte list list" and chunks_count br restored extras_positions expanded x2 t y run br'
      restored' and extras_positions' :: "nat list"
    using that pos_run[of br t run br'] by auto
  show "((home, chunks_count, br', expand_home (nat run) (home ! nat t) restored, extras_positions, expanded + run),
          home, chunks_count, br, restored, extras_positions, expanded)
        \<in> measure (\<lambda>(home, chunks_count, br, restored, extras_positions, expanded).
                            nat (int chunks_count - expanded))"
    if "expanded < int chunks_count" "read_run br = Inr x2" "(t, y) = x2" "(run, br') = y"
    for home :: "byte list list" and chunks_count br restored and extras_positions :: "nat list"
      and expanded x2 t y run br'
    using that pos_run[of br t run br'] by auto
qed

declare decode_runs.simps [simp del]

section \<open>End marker scan\<close>

text \<open>The loop \<open>while ones < 9\<close> of the \<open>try\<close> block. It ends normally after nine
  consecutive one bits, or with the exception of the \<open>read_bits\<close> that ran out of input.\<close>

function scan_marker :: "BitReader \<Rightarrow> int \<Rightarrow> (error \<times> BitReader) + BitReader" where
  "scan_marker br ones =
     (if ones < 9 then
        (case read_bits br 1 of
           Inl (e, br') \<Rightarrow> Inl (e, br')
         | Inr (b, br') \<Rightarrow>
             if b = 1 then scan_marker br' (ones + 1) else scan_marker br' 0)
      else Inr br)"
  by pat_completeness auto
termination
proof (relation "measure (\<lambda>(br, ones). bitlen br + 8 * (length (data br) - pos br))")
  have fb: "bitlen b' + 8 * (length (data b') - pos b') = bitlen b + 8 * (length (data b) - pos b)
            \<and> n \<le> bitlen b'"
    if "fill_bits b n = Inr b'" for b n b'
    using that
  proof (induction b n rule: fill_bits.induct)
    case (1 b n)
    show ?case
    proof (cases "bitlen b < n")
      case False
      then show ?thesis using "1.prems" by (subst (asm) fill_bits.simps) auto
    next
      case True
      then have p: "\<not> length (data b) \<le> pos b"
        using "1.prems" by (subst (asm) fill_bits.simps) auto
      let ?b = "b\<lparr>bitbuf := bitbuf b OR push_bit (bitlen b) (uint (data b ! pos b)),
                   pos := pos b + 1, bitlen := bitlen b + 8\<rparr>"
      have "fill_bits ?b n = Inr b'"
        using "1.prems" True p by (subst (asm) fill_bits.simps) simp
      from "1.IH"[OF True p this] p show ?thesis by simp
    qed
  qed
  have dec: "bitlen b' + 8 * (length (data b') - pos b') < bitlen b + 8 * (length (data b) - pos b)"
    if "read_bits b 1 = Inr (v, b')" for b v b'
  proof -
    from that obtain b1 where f: "fill_bits b 1 = Inr b1"
      and b': "b' = b1\<lparr>bitbuf := drop_bit 1 (bitbuf b1), bitlen := bitlen b1 - 1\<rparr>"
      by (auto simp: read_bits_def split: sum.splits)
    from fb[OF f] have "bitlen b1 + 8 * (length (data b1) - pos b1) = bitlen b + 8 * (length (data b) - pos b)"
      and "1 \<le> bitlen b1" by simp_all
    then show ?thesis by (simp add: b')
  qed
  show "wf (measure (\<lambda>(br, ones). bitlen br + 8 * (length (data br) - pos br)))" by simp
  show "((br', ones + 1), br, ones) \<in> measure (\<lambda>(br, ones). bitlen br + 8 * (length (data br) - pos br))"
    if "read_bits br 1 = Inr x2" "(b, br') = x2" for br ones x2 b br'
    using that dec[of br b br'] by auto
  show "((br', 0), br, ones) \<in> measure (\<lambda>(br, ones). bitlen br + 8 * (length (data br) - pos br))"
    if "read_bits br 1 = Inr x2" "(b, br') = x2" for br and ones :: int and x2 b br'
    using that dec[of br b br'] by auto
qed

declare scan_marker.simps [simp del]

text \<open>\<open>try: ... except SystemExit: pass\<close>: either way \<open>decompress\<close> goes on with the
  reader as the scan left it.\<close>

definition consume_marker :: "BitReader \<Rightarrow> BitReader" where
  "consume_marker br = (case scan_marker br 0 of Inl (e, br') \<Rightarrow> br' | Inr br' \<Rightarrow> br')"

section \<open>Extras patching (last loop of \<open>decompress\<close>)\<close>

text \<open>Slice assignment \<open>xs[i:j] = v\<close> on a bytearray: both bounds are clamped to the
  length, and the list grows or shrinks when \<open>v\<close> is not as long as the slice.\<close>

definition slice_assign :: "byte list \<Rightarrow> nat \<Rightarrow> nat \<Rightarrow> byte list \<Rightarrow> byte list" where
  "slice_assign xs i j v = take i xs @ v @ drop (max i j) xs"

text \<open>\<open>ex_iter\<close> is the list of pieces not yet taken by \<open>next\<close>; \<open>StopIteration\<close> is the
  empty list.\<close>

fun patch_extras :: "byte list \<Rightarrow> nat list \<Rightarrow> byte list list \<Rightarrow> byte list" where
  "patch_extras out_bytes [] ex_iter = out_bytes"
| "patch_extras out_bytes (p # ps) ex_iter =
     (case ex_iter of
        [] \<Rightarrow> patch_extras (slice_assign out_bytes p (p + CHUNK_SIZE) (replicate CHUNK_SIZE 0)) ps []
      | chunk # rest \<Rightarrow> patch_extras (slice_assign out_bytes p (p + CHUNK_SIZE) chunk) ps rest)"


section \<open>Container fields\<close>

text \<open>\<open>struct.pack('<I', n)\<close>, \<open>struct.pack('<Q', n)\<close> and \<open>n.to_bytes(4, 'little')\<close> write
  little-endian and raise when the value does not fit; \<open>struct.unpack\<close> and
  \<open>int.from_bytes(..., 'little')\<close> read little-endian.\<close>

definition le_bytes :: "nat \<Rightarrow> nat \<Rightarrow> byte list" where
  "le_bytes k v = map (\<lambda>i. of_nat (v div 256 ^ i)) [0..<k]"

definition pack_I :: "nat \<Rightarrow> error + byte list" where
  "pack_I n = (if n < 2 ^ 32 then Inr (le_bytes 4 n) else Inl StructError)"

definition pack_Q :: "nat \<Rightarrow> error + byte list" where
  "pack_Q n = (if n < 2 ^ 64 then Inr (le_bytes 8 n) else Inl StructError)"

definition to_bytes4 :: "nat \<Rightarrow> error + byte list" where
  "to_bytes4 n = (if n < 2 ^ 32 then Inr (le_bytes 4 n) else Inl OverflowError)"

definition from_bytes_le :: "byte list \<Rightarrow> nat" where
  "from_bytes_le bs = foldr (\<lambda>b acc. unat b + 256 * acc) bs 0"

section \<open>\<open>compress\<close>\<close>

text \<open>Files are their contents; the written container is the result. \<open>gzip.compress\<close> is a
  library function outside the repository: the parameter \<open>gzip_compress\<close>.\<close>

definition compress :: "(byte list \<Rightarrow> byte list) \<Rightarrow> (byte list \<Rightarrow> byte list) \<Rightarrow> byte list \<Rightarrow> byte list
                         \<Rightarrow> error + byte list" where
  "compress sha256 gzip_compress infile world =
     (case load_world world of
        Inl e \<Rightarrow> Inl e
      | Inr (mapping, key) \<Rightarrow>
          (let home = gen_home_from_key sha256 key in
           case chunk_file infile of (chunks, orig_len) \<Rightarrow>
           case classify (home_index home) chunks [] [] of (types, extras) \<Rightarrow>
          (let out_bits = encode_bitstream types;
               extras_blob = (if extras \<noteq> [] then gzip_compress (concat extras) else [])
           in case pack_I (length chunks) of
                Inl e \<Rightarrow> Inl e
              | Inr count_field \<Rightarrow>
                  (case pack_Q orig_len of
                     Inl e \<Rightarrow> Inl e
                   | Inr len_field \<Rightarrow>
                       (case to_bytes4 (length extras_blob) of
                          Inl e \<Rightarrow> Inl e
                        | Inr extras_len_field \<Rightarrow>
                            Inr (count_field @ len_field @ out_bits @ extras_len_field @ extras_blob))))))"

section \<open>\<open>decompress\<close>\<close>

text \<open>\<open>gzip.decompress\<close> is the parameter \<open>gzip_decompress\<close>; \<open>None\<close> stands for any
  exception it raises on a malformed blob.\<close>

text \<open>Lines 218--227, after the marker scan: byte alignment, the extras length, the blob
  and its decompression.\<close>

definition read_extras :: "(byte list \<Rightarrow> byte list option) \<Rightarrow> byte list \<Rightarrow> BitReader
      \<Rightarrow> error + byte list" where
  "read_extras gzip_decompress dat br0 =
     (let br = br0\<lparr>bitbuf := 0, bitlen := 0\<rparr>;
          p = pos br
      in if p + 4 > length dat then Inl (SystemExit ''missing extras length'')
         else
           (let extras_len = from_bytes_le (take 4 (drop p dat));
                p = p + 4;
                extras_blob = (if extras_len \<noteq> 0 then take extras_len (drop p dat) else [])
            in case (if extras_blob \<noteq> [] then gzip_decompress extras_blob else Some []) of
                 None \<Rightarrow> Inl GzipError
               | Some extras \<Rightarrow> Inr extras))"

text \<open>Lines 152--227: everything \<open>decompress\<close> does before it patches the extras in.
  The result is \<open>(orig_len, restored, extras_positions, extras)\<close>.\<close>

definition parse_container :: "(byte list \<Rightarrow> byte list) \<Rightarrow> (byte list \<Rightarrow> byte list option) \<Rightarrow> byte list
      \<Rightarrow> byte list \<Rightarrow> error + (nat \<times> byte list \<times> nat list \<times> byte list)" where
  "parse_container sha256 gzip_decompress infile world =
     (case load_world world of
        Inl e \<Rightarrow> Inl e
      | Inr (mapping, key) \<Rightarrow>
          (let home = gen_home_from_key sha256 key;
               dat = infile
           in if length dat < 12 then Inl (SystemExit ''input too short'')
              else
                (let chunks_count = from_bytes_le (take 4 dat);
                     orig_len = from_bytes_le (take 8 (drop 4 dat));
                     br = BitReader_init dat 12
                 in case decode_runs home chunks_count br [] [] 0 of
                      Inl e \<Rightarrow> Inl e
                    | Inr (br, restored, extras_positions, expanded) \<Rightarrow>
                        (case read_extras gzip_decompress dat (consume_marker br) of
                           Inl e \<Rightarrow> Inl e
                         | Inr extras \<Rightarrow> Inr (orig_len, restored, extras_positions, extras)))))"

text \<open>Lines 229--244: the patch loop and the trim to \<open>orig_len\<close>; the written file is the
  result.\<close>

definition decompress :: "(byte list \<Rightarrow> byte list) \<Rightarrow> (byte list \<Rightarrow> byte list option) \<Rightarrow> byte list \<Rightarrow> byte list
                           \<Rightarrow> error + byte list" where
  "decompress sha256 gzip_decompress infile world =
     (case parse_container sha256 gzip_decompress infile world of
        Inl e \<Rightarrow> Inl e
      | Inr (orig_len, restored, extras_positions, extras) \<Rightarrow>
          (let restored = (if extras_positions \<noteq> []
                           then patch_extras restored extras_positions (split_chunks extras)
                           else restored)
           in Inr (take orig_len restored)))"

section \<open>Stand-ins for the library functions\<close>

text \<open>Concrete functions to run the model on examples: a 32-byte digest that
  repeats the last message byte plus one (so \<open>HomeTable[i]\<close> is 18 copies of the byte
  \<open>i + 1\<close>), and a framing that stores the bytes behind a one-byte header.\<close>

definition example_digest :: "byte list \<Rightarrow> byte list" where
  "example_digest m = replicate 32 (last m + 1)"

definition example_gzip :: "byte list \<Rightarrow> byte list" where
  "example_gzip bs = 31 # bs"

definition example_gunzip :: "byte list \<Rightarrow> byte list option" where
  "example_gunzip bs = (case bs of [] \<Rightarrow> None | b # rest \<Rightarrow> if b = 31 then Some rest else None)"


section \<open>What a Type sequence decodes to\<close>

text \<open>The chunk the decoder puts at a position of Type \<open>t\<close> (the zero placeholder for
  Type 15, the table entry otherwise), and the positions it records: the byte offset of
  every Type-15 position, in order.\<close>

definition type_chunk :: "byte list list \<Rightarrow> int \<Rightarrow> byte list" where
  "type_chunk home t = (if t = 15 then replicate CHUNK_SIZE 0 else home ! nat t)"

fun type_positions :: "byte list list \<Rightarrow> int list \<Rightarrow> nat \<Rightarrow> nat list" where
  "type_positions home [] off = []"
| "type_positions home (t # ts) off =
     (if t = 15 then [off] else []) @ type_positions home ts (off + length (type_chunk home t))"


section \<open>Abstraction of the bit stream\<close>

text \<open>A byte sequence read LSB-first is the little-endian integer \<open>le_int\<close>. The reader
  and the writer are described by the integer still to be read (\<open>rval\<close>) or already
  written (\<open>wval\<close>) and by the number of bits it holds; \<open>sval\<close> is the integer a list
  of fields stands for.\<close>

fun le_int :: "byte list \<Rightarrow> int" where
  "le_int [] = 0"
| "le_int (b # bs) = uint b OR push_bit 8 (le_int bs)"

definition wf_reader :: "BitReader \<Rightarrow> bool" where
  "wf_reader br \<longleftrightarrow> pos br \<le> length (data br) \<and> take_bit (bitlen br) (bitbuf br) = bitbuf br"

definition rval :: "BitReader \<Rightarrow> int" where
  "rval br = bitbuf br OR push_bit (bitlen br) (le_int (drop (pos br) (data br)))"

definition avail :: "BitReader \<Rightarrow> nat" where
  "avail br = bitlen br + 8 * (length (data br) - pos br)"

definition consumed :: "BitReader \<Rightarrow> int" where
  "consumed br = 8 * int (pos br) - int (bitlen br)"

fun wval :: "bitwriter \<Rightarrow> int" where
  "wval (buf, bb, bl) = le_int buf OR push_bit (8 * length buf) bb"

fun wlen :: "bitwriter \<Rightarrow> nat" where
  "wlen (buf, bb, bl) = 8 * length buf + bl"

fun wf_writer :: "bitwriter \<Rightarrow> bool" where
  "wf_writer (buf, bb, bl) \<longleftrightarrow> take_bit bl bb = bb"

fun wbits :: "bitwriter \<Rightarrow> nat" where
  "wbits (buf, bb, bl) = bl"

fun sval :: "(int \<times> nat) list \<Rightarrow> int" where
  "sval [] = 0"
| "sval ((v, n) # fs) = take_bit n v OR push_bit n (sval fs)"

fun swid :: "(int \<times> nat) list \<Rightarrow> nat" where
  "swid [] = 0"
| "swid ((v, n) # fs) = n + swid fs"

text \<open>\<open>sstream fs Z\<close> is the stream that starts with the fields \<open>fs\<close> and goes on with \<open>Z\<close>;
  \<open>advanced br n br'\<close> says that \<open>br'\<close> is \<open>br\<close> after \<open>n\<close> more bits. A group is a Type with
  one emitted sub-run.\<close>

definition sstream :: "(int \<times> nat) list \<Rightarrow> int \<Rightarrow> int" where
  "sstream fs Z = sval fs OR push_bit (swid fs) Z"

definition advanced :: "BitReader \<Rightarrow> nat \<Rightarrow> BitReader \<Rightarrow> bool" where
  "advanced br n br' \<longleftrightarrow> wf_reader br' \<and> n \<le> avail br \<and> avail br' = avail br - n \<and> data br' = data br
      \<and> consumed br' = consumed br + int n \<and> (bitlen br < 8 \<longrightarrow> bitlen br' < 8)"

definition valid_sub_run :: "sub_run \<Rightarrow> bool" where
  "valid_sub_run s \<longleftrightarrow> (\<exists>k. s = ShortForm k \<and> 1 \<le> k \<and> k \<le> 8) \<or> (\<exists>M. s = Extended 8 M \<and> 0 \<le> M \<and> M \<le> 31)"

definition gfields :: "(int \<times> sub_run) list \<Rightarrow> (int \<times> nat) list" where
  "gfields gs = concat (map (\<lambda>(t, s). sub_run_fields t s) gs)"

definition gtypes :: "(int \<times> sub_run) list \<Rightarrow> int list" where
  "gtypes gs = concat (map (\<lambda>(t, s). replicate (nat (sub_run_chunks s)) t) gs)"

definition valid_group :: "byte list list \<Rightarrow> int \<times> sub_run \<Rightarrow> bool" where
  "valid_group home g \<longleftrightarrow> 0 \<le> fst g \<and> fst g \<le> 15 \<and> valid_sub_run (snd g)
      \<and> (fst g \<noteq> 15 \<longrightarrow> nat (fst g) < length home)"


section \<open>Bit reader and writer: the stream they agree on\<close>

lemma and_mask_take_bit: "(x::int) AND (push_bit n 1 - 1) = take_bit n x"
  by (simp add: take_bit_eq_mask mask_eq_exp_minus_1)

lemma le_int_append: "le_int (xs @ ys) = le_int xs OR push_bit (8 * length xs) (le_int ys)"
  by (induction xs) (simp_all add: push_bit_or or.assoc push_bit_add ac_simps)

lemma le_int_nonneg: "0 \<le> le_int xs"
  by (induction xs) simp_all

lemma take_bit_uint_byte: "8 \<le> n \<Longrightarrow> take_bit n (uint (b::byte)) = uint b"
proof (rule take_bit_int_eq_self)
  show "0 \<le> uint b" by simp
  have "uint b < 2 ^ 8" using uint_bounded[of b] by simp
  also assume "8 \<le> n"
  then have "(2::int) ^ 8 \<le> 2 ^ n" by (rule power_increasing) simp
  finally show "uint b < 2 ^ n" .
qed

lemma take_bit_le_int: "8 * length xs \<le> n \<Longrightarrow> take_bit n (le_int xs) = le_int xs"
proof (induction xs arbitrary: n)
  case Nil
  then show ?case by simp
next
  case (Cons a xs)
  then have "take_bit (n - 8) (le_int xs) = le_int xs" by simp
  moreover have "take_bit n (uint a) = uint a" using Cons.prems by (simp add: take_bit_uint_byte)
  ultimately show ?case by (simp add: take_bit_or take_bit_push_bit)
qed

lemma take_bit_mono_self: "take_bit m (x::int) = x \<Longrightarrow> m \<le> n \<Longrightarrow> take_bit n x = x"
  by (metis take_bit_take_bit min.absorb1 min.commute)

lemma fill_step:
  assumes "wf_reader br" "pos br < length (data br)"
  defines "br1 \<equiv> br\<lparr>bitbuf := bitbuf br OR push_bit (bitlen br) (uint (data br ! pos br)),
                               pos := pos br + 1,
                               bitlen := bitlen br + 8\<rparr>"
  shows "wf_reader br1" "rval br1 = rval br" "avail br1 = avail br" "consumed br1 = consumed br"
proof -
  have d: "drop (pos br) (data br) = data br ! pos br # drop (Suc (pos br)) (data br)"
    using assms(2) by (simp add: Cons_nth_drop_Suc)
  have tb: "take_bit (bitlen br) (bitbuf br) = bitbuf br" using assms(1) by (simp add: wf_reader_def)
  have tb8: "take_bit (bitlen br + 8) (bitbuf br) = bitbuf br"
    using tb by (rule take_bit_mono_self) simp
  show "wf_reader br1" using assms(2) tb8
    by (simp add: wf_reader_def br1_def take_bit_push_bit take_bit_uint_byte)
  show "rval br1 = rval br"
    by (simp add: rval_def br1_def d push_bit_or push_bit_add ac_simps)
  show "avail br1 = avail br" using assms(2) by (simp add: avail_def br1_def)
  show "consumed br1 = consumed br" by (simp add: consumed_def br1_def)
qed

lemma fill_bits_ok:
  "wf_reader br \<Longrightarrow> n \<le> avail br \<Longrightarrow>
   \<exists>br'. fill_bits br n = Inr br' \<and> wf_reader br' \<and> rval br' = rval br \<and> avail br' = avail br
      \<and> data br' = data br \<and> n \<le> bitlen br' \<and> consumed br' = consumed br
      \<and> bitlen br' \<le> max (bitlen br) (n + 7)"
proof (induction br n rule: fill_bits.induct)
  case (1 br n)
  show ?case
  proof (cases "bitlen br < n")
    case False
    then show ?thesis using "1.prems" by (subst fill_bits.simps) simp
  next
    case True
    with "1.prems" have p: "pos br < length (data br)" by (auto simp: avail_def wf_reader_def)
    let ?br = "br\<lparr>bitbuf := bitbuf br OR push_bit (bitlen br) (uint (data br ! pos br)),
                               pos := pos br + 1,
                               bitlen := bitlen br + 8\<rparr>"
    note st = fill_step[OF "1.prems"(1) p]
    have np: "\<not> length (data br) \<le> pos br" using p by simp
    from "1.IH"[OF True np st(1)] st(3) "1.prems"(2)
    obtain br' where r: "fill_bits ?br n = Inr br'" "wf_reader br'" "rval br' = rval ?br" "avail br' = avail ?br"
      "data br' = data ?br" "n \<le> bitlen br'" "consumed br' = consumed ?br" "bitlen br' \<le> max (bitlen ?br) (n + 7)"
      by auto
    have "fill_bits br n = fill_bits ?br n" using True np by (subst fill_bits.simps) simp
    then show ?thesis using r st True by auto
  qed
qed

lemma fill_bits_fail:
  "avail br < n \<Longrightarrow>
   \<exists>br'. fill_bits br n = Inl (SystemExit ''truncated bitstream'', br')
      \<and> pos br' = max (pos br) (length (data br)) \<and> data br' = data br"
proof (induction br n rule: fill_bits.induct)
  case (1 br n)
  have lt: "bitlen br < n" using "1.prems" by (simp add: avail_def)
  show ?case
  proof (cases "pos br \<ge> length (data br)")
    case True
    then show ?thesis using lt by (subst fill_bits.simps) (simp add: max_def)
  next
    case False
    let ?br = "br\<lparr>bitbuf := bitbuf br OR push_bit (bitlen br) (uint (data br ! pos br)),
                               pos := pos br + 1,
                               bitlen := bitlen br + 8\<rparr>"
    have "avail ?br < n" using False "1.prems" by (simp add: avail_def)
    from "1.IH"[OF lt False this]
    obtain br' where r: "fill_bits ?br n = Inl (SystemExit ''truncated bitstream'', br')"
       "pos br' = max (pos ?br) (length (data ?br))" "data br' = data ?br" by auto
    have "fill_bits br n = fill_bits ?br n" using lt False by (subst fill_bits.simps) simp
    then show ?thesis using r False by (auto simp: max_def)
  qed
qed

lemma read_bits_ok:
  assumes "wf_reader br" "n \<le> avail br"
  shows "\<exists>br'. read_bits br n = Inr (take_bit n (rval br), br') \<and> wf_reader br'
      \<and> rval br' = drop_bit n (rval br) \<and> avail br' = avail br - n
      \<and> data br' = data br \<and> consumed br' = consumed br + int n
      \<and> (bitlen br < 8 \<longrightarrow> bitlen br' < 8)"
proof -
  from fill_bits_ok[OF assms] obtain b1 where f: "fill_bits br n = Inr b1" "wf_reader b1" "rval b1 = rval br"
     "avail b1 = avail br" "data b1 = data br" "n \<le> bitlen b1" "consumed b1 = consumed br"
     "bitlen b1 \<le> max (bitlen br) (n + 7)" by blast
  let ?b2 = "b1\<lparr>bitbuf := drop_bit n (bitbuf b1), bitlen := bitlen b1 - n\<rparr>"
  have rb: "read_bits br n = Inr (take_bit n (bitbuf b1), ?b2)"
    by (simp add: read_bits_def f(1) take_bit_eq_mask mask_eq_exp_minus_1)
  have tb: "take_bit (bitlen b1) (bitbuf b1) = bitbuf b1" using f(2) by (simp add: wf_reader_def)
  have v: "take_bit n (rval b1) = take_bit n (bitbuf b1)"
    using f(6) by (simp add: rval_def take_bit_push_bit)
  have "take_bit (bitlen b1 - n) (drop_bit n (bitbuf b1)) = drop_bit n (take_bit (bitlen b1) (bitbuf b1))"
    using f(6) by (simp add: drop_bit_take_bit)
  then have wf2: "wf_reader ?b2" using f(2) tb by (simp add: wf_reader_def)
  have r2: "rval ?b2 = drop_bit n (rval b1)"
    using f(6) by (simp add: rval_def drop_bit_or drop_bit_push_bit)
  have a2: "avail ?b2 = avail b1 - n" using f(6) by (simp add: avail_def)
  have c2: "consumed ?b2 = consumed b1 + int n" using f(6) by (simp add: consumed_def)
  have l2: "bitlen br < 8 \<longrightarrow> bitlen ?b2 < 8" using f(6,8) by auto
  show ?thesis using rb v wf2 r2 a2 c2 l2 f by auto
qed

lemma read_bits_fail:
  assumes "avail br < n"
  shows "\<exists>br'. read_bits br n = Inl (SystemExit ''truncated bitstream'', br')
      \<and> pos br' = max (pos br) (length (data br)) \<and> data br' = data br"
  using fill_bits_fail[OF assms] by (auto simp: read_bits_def)

lemma take_or_push_drop: "take_bit n (x::int) OR push_bit n (drop_bit n x) = x"
proof (rule bit_eqI)
  fix k
  show "bit (take_bit n x OR push_bit n (drop_bit n x)) k = bit x k"
    by (cases "k < n") (simp_all add: bit_simps)
qed

lemma uint_low_byte: "uint (word_of_int (x AND 255) :: byte) = take_bit 8 x"
proof -
  have "x AND 255 = take_bit 8 x" by (simp add: take_bit_eq_mask mask_eq_exp_minus_1)
  then show ?thesis by (simp add: uint_word_of_int_eq)
qed

lemma flush_bytes_ok:
  "wf_writer w \<Longrightarrow> wf_writer (flush_bytes w) \<and> wval (flush_bytes w) = wval w
     \<and> wlen (flush_bytes w) = wlen w \<and> wbits (flush_bytes w) < 8"
proof (induction w rule: flush_bytes.induct)
  case (1 buf bb bl)
  show ?case
  proof (cases "bl \<ge> 8")
    case False
    then show ?thesis using "1.prems" by (subst (1 2 3 4) flush_bytes.simps) simp
  next
    case True
    let ?w = "(buf @ [word_of_int (bb AND 255)], drop_bit 8 bb, bl - 8)"
    have eq: "flush_bytes (buf, bb, bl) = flush_bytes ?w"
      using True by (subst flush_bytes.simps) simp
    have "take_bit (bl - 8) (drop_bit 8 bb) = drop_bit 8 (take_bit bl bb)"
      using True by (simp add: drop_bit_take_bit)
    then have wf: "wf_writer ?w" using "1.prems" by simp
    have "push_bit (8 * length buf) (take_bit 8 bb) OR push_bit (8 + 8 * length buf) (drop_bit 8 bb)
          = push_bit (8 * length buf) (take_bit 8 bb OR push_bit 8 (drop_bit 8 bb))"
      by (simp add: push_bit_or push_bit_add ac_simps)
    then have v: "wval ?w = wval (buf, bb, bl)"
      by (simp add: le_int_append uint_low_byte take_or_push_drop or.assoc)
    have l: "wlen ?w = wlen (buf, bb, bl)" using True by simp
    show ?thesis using "1.IH"[OF True wf] eq v l by simp
  qed
qed

lemma write_bits_ok:
  assumes "wf_writer w"
  shows "wf_writer (write_bits w v n)" "wval (write_bits w v n) = wval w OR push_bit (wlen w) (take_bit n v)"
     "wlen (write_bits w v n) = wlen w + n" "wbits (write_bits w v n) < 8"
proof -
  obtain buf bb bl where w: "w = (buf, bb, bl)" by (cases w)
  let ?w = "(buf, bb OR push_bit bl (take_bit n v), bl + n)"
  have wb: "write_bits w v n = flush_bytes ?w"
    by (simp add: write_bits_def w take_bit_eq_mask mask_eq_exp_minus_1)
  have tb: "take_bit bl bb = bb" using assms w by simp
  have "take_bit (bl + n) bb = bb" using tb by (rule take_bit_mono_self) simp
  then have wf: "wf_writer ?w" by (simp add: take_bit_push_bit)
  have v: "wval ?w = wval w OR push_bit (wlen w) (take_bit n v)"
    by (simp add: w push_bit_or push_bit_add or.assoc)
  have l: "wlen ?w = wlen w + n" by (simp add: w)
  note fl = flush_bytes_ok[OF wf]
  show "wf_writer (write_bits w v n)" using fl wb by simp
  show "wval (write_bits w v n) = wval w OR push_bit (wlen w) (take_bit n v)" using fl wb v by simp
  show "wlen (write_bits w v n) = wlen w + n" using fl wb l by simp
  show "wbits (write_bits w v n) < 8" using fl wb by simp
qed

lemma sval_append: "sval (fs @ gs) = sval fs OR push_bit (swid fs) (sval gs)"
  by (induction fs rule: sval.induct) (simp_all add: push_bit_or push_bit_add or.assoc ac_simps)

lemma swid_append: "swid (fs @ gs) = swid fs + swid gs"
  by (induction fs rule: swid.induct) simp_all

lemma take_bit_sval: "swid fs \<le> n \<Longrightarrow> take_bit n (sval fs) = sval fs"
proof (induction fs arbitrary: n rule: sval.induct)
  case 1
  then show ?case by simp
next
  case (2 v k fs)
  then have "take_bit (n - k) (sval fs) = sval fs" by simp
  moreover have "take_bit n (take_bit k v) = take_bit k v" using 2 by simp
  ultimately show ?case by (simp add: take_bit_push_bit)
qed

lemma write_fields_ok:
  "wf_writer w \<Longrightarrow> wbits w < 8 \<Longrightarrow>
    wf_writer (write_fields w fs) \<and> wval (write_fields w fs) = wval w OR push_bit (wlen w) (sval fs)
     \<and> wlen (write_fields w fs) = wlen w + swid fs \<and> wbits (write_fields w fs) < 8"
proof (induction w fs rule: write_fields.induct)
  case (1 w)
  then show ?case by simp
next
  case (2 w v n fs)
  note wb = write_bits_ok[OF "2.prems"(1), of v n]
  from "2.IH"[OF wb(1) wb(4)] wb show ?case
    by (simp add: push_bit_or push_bit_add or.assoc ac_simps)
qed

lemma finish_bits_ok:
  assumes "wf_writer w" "wbits w < 8"
  shows "le_int (finish_bits w) = wval w" "8 * length (finish_bits w) = 8 * ((wlen w + 7) div 8)"
proof -
  obtain buf bb bl where w: "w = (buf, bb, bl)" by (cases w)
  have tb: "take_bit bl bb = bb" using assms w by simp
  have bl: "bl < 8" using assms w by simp
  have t8: "take_bit 8 bb = bb" using tb by (rule take_bit_mono_self) (use bl in simp)
  have z: "bl = 0 \<Longrightarrow> bb = 0" using tb by auto
  show "le_int (finish_bits w) = wval w"
    using z by (auto simp: finish_bits_def w le_int_append uint_low_byte t8)
  show "8 * length (finish_bits w) = 8 * ((wlen w + 7) div 8)"
    using bl by (auto simp: finish_bits_def w)
qed

lemma read_fields_ok:
  "wf_reader br \<Longrightarrow> rval br = sval fs OR push_bit K Z \<Longrightarrow> swid fs \<le> K \<Longrightarrow> K \<le> avail br \<Longrightarrow>
   \<exists>br'. read_fields br (map snd fs) = Inr (map (\<lambda>(v, n). take_bit n v) fs, br') \<and> wf_reader br'
      \<and> rval br' = push_bit (K - swid fs) Z \<and> avail br' = avail br - swid fs
      \<and> data br' = data br \<and> consumed br' = consumed br + int (swid fs)
      \<and> (bitlen br < 8 \<longrightarrow> bitlen br' < 8)"
proof (induction fs arbitrary: br K rule: sval.induct)
  case 1
  then show ?case by simp
next
  case (2 v n fs)
  have n: "n \<le> avail br" using "2.prems" by simp
  from read_bits_ok[OF "2.prems"(1) n]
  obtain b1 where r: "read_bits br n = Inr (take_bit n (rval br), b1)" "wf_reader b1"
      "rval b1 = drop_bit n (rval br)" "avail b1 = avail br - n" "data b1 = data br"
      "consumed b1 = consumed br + int n" "bitlen br < 8 \<longrightarrow> bitlen b1 < 8" by blast
  have nK: "n \<le> K" using "2.prems" by simp
  have tv: "take_bit n (rval br) = take_bit n v"
    using nK by (simp add: "2.prems"(2) take_bit_push_bit)
  have dv: "rval b1 = sval fs OR push_bit (K - n) Z"
    using nK by (simp add: r(3) "2.prems"(2) drop_bit_or drop_bit_push_bit drop_bit_take_bit)
  have "swid fs \<le> K - n" "K - n \<le> avail b1" using "2.prems" r(4) by auto
  from "2.IH"[OF r(2) dv this]
  obtain br' where r': "read_fields b1 (map snd fs) = Inr (map (\<lambda>(v, n). take_bit n v) fs, br')" "wf_reader br'"
      "rval br' = push_bit (K - n - swid fs) Z" "avail br' = avail b1 - swid fs"
      "data br' = data b1" "consumed br' = consumed b1 + int (swid fs)" "bitlen b1 < 8 \<longrightarrow> bitlen br' < 8" by blast
  have rf: "read_fields br (map snd ((v, n) # fs)) = Inr (map (\<lambda>(v, n). take_bit n v) ((v, n) # fs), br')"
    by (simp add: r(1) r'(1) tv)
  have k: "K - n - swid fs = K - swid ((v, n) # fs)" by simp
  have a: "avail br' = avail br - swid ((v, n) # fs)" using r(4) r'(4) by simp
  have c: "consumed br' = consumed br + int (swid ((v, n) # fs))" using r(6) r'(6) by simp
  have d: "data br' = data br" using r(5) r'(5) by simp
  have l: "bitlen br < 8 \<longrightarrow> bitlen br' < 8" using r(7) r'(7) by simp
  show ?case
    apply (rule exI[of _ br'])
    apply (intro conjI rf r'(2) a c d l)
    apply (simp only: r'(3) k)
    done
qed


section \<open>Chunks\<close>

lemma concat_takes: "concat (map (\<lambda>k. take c (drop (k * c) d)) [0..<m]) = take (m * c) d"
proof (induction m)
  case 0
  then show ?case by simp
next
  case (Suc m)
  have "Suc m * c = m * c + c" by simp
  then have "take (Suc m * c) d = take (m * c) d @ take c (drop (m * c) d)"
    by (simp only: take_add)
  then show ?case using Suc by simp
qed

lemma split_chunks_concat: "concat (split_chunks d) = d"
proof -
  have "length d \<le> ((length d + 17) div 18) * 18" by arith
  then show ?thesis
    by (simp add: split_chunks_def py_range_def CHUNK_SIZE_def map_map comp_def concat_takes)
qed

lemma split_chunks_length: "length (split_chunks d) = (length d + 17) div 18"
  by (simp add: split_chunks_def py_range_def CHUNK_SIZE_def)

lemma split_chunks_nth:
  "k < length (split_chunks d) \<Longrightarrow> split_chunks d ! k = take 18 (drop (k * 18) d)"
  by (simp add: split_chunks_def py_range_def CHUNK_SIZE_def)

lemma split_chunks_full:
  assumes "18 dvd length d"
  shows "\<forall>c\<in>set (split_chunks d). length c = 18" "length (split_chunks d) * 18 = length d"
proof -
  from assms obtain m where m: "length d = 18 * m" by (auto simp: dvd_def)
  show "\<forall>c\<in>set (split_chunks d). length c = 18"
    by (auto simp: split_chunks_def py_range_def CHUNK_SIZE_def m)
  show "length (split_chunks d) * 18 = length d"
    by (simp add: split_chunks_length m)
qed

lemma chunk_pad_props:
  "chunk_pad L < 18" "18 dvd (L + chunk_pad L)" "chunk_pad L = 0 \<longleftrightarrow> 18 dvd L"
proof -
  have i: "int (chunk_pad L) = (- int L) mod 18" by (simp add: chunk_pad_def CHUNK_SIZE_def)
  have "(- int L) mod 18 < 18" by simp
  then show "chunk_pad L < 18" using i by linarith
  have "(18::int) dvd int L + (- int L) mod 18" by presburger
  then have "(18::int) dvd int (L + chunk_pad L)" using i by simp
  then show "18 dvd (L + chunk_pad L)" by presburger
  have "((- int L) mod 18 = 0) = ((18::int) dvd int L)" by presburger
  then have "(int (chunk_pad L) = 0) = (18 dvd L)" unfolding i by presburger
  then show "chunk_pad L = 0 \<longleftrightarrow> 18 dvd L" by simp
qed


section \<open>Run splitting, run encoding and run decoding\<close>

lemma extended_choice:
  assumes "8 < rem"
  shows "choose_small_run rem = 8" "0 \<le> choose_M rem 8" "choose_M rem 8 \<le> 31"
    "8 * (choose_M rem 8 + 1) \<le> rem" "8 \<le> 8 * (choose_M rem 8 + 1)" "8 * (choose_M rem 8 + 1) \<le> 256"
proof -
  show "choose_small_run rem = 8" using assms by (simp add: choose_small_run_def)
  have d: "1 \<le> rem div 8" using assms by simp
  show m0: "0 \<le> choose_M rem 8" using d by (simp add: choose_M_def)
  show m1: "choose_M rem 8 \<le> 31" by (simp add: choose_M_def)
  have "choose_M rem 8 + 1 \<le> rem div 8" by (simp add: choose_M_def)
  then have "8 * (choose_M rem 8 + 1) \<le> 8 * (rem div 8)" by simp
  also have "\<dots> \<le> rem" by simp
  finally show "8 * (choose_M rem 8 + 1) \<le> rem" .
  show "8 \<le> 8 * (choose_M rem 8 + 1)" using m0 by simp
  show "8 * (choose_M rem 8 + 1) \<le> 256" using m1 by simp
qed

lemma split_run_nonpos: "rem \<le> 0 \<Longrightarrow> split_run rem = []"
  by (subst split_run.simps) simp

lemma split_run_short: "0 < rem \<Longrightarrow> rem \<le> 8 \<Longrightarrow> split_run rem = [ShortForm rem]"
  by (subst split_run.simps) (simp add: split_run_nonpos)

lemma split_run_ext:
  "8 < rem \<Longrightarrow> split_run rem = Extended 8 (choose_M rem 8) # split_run (rem - 8 * (choose_M rem 8 + 1))"
  using extended_choice[of rem] by (subst split_run.simps) (simp add: Let_def)

lemma encode_run_nonpos: "rem \<le> 0 \<Longrightarrow> encode_run w t rem = w"
  by (subst encode_run.simps) simp

lemma encode_run_short:
  "0 < rem \<Longrightarrow> rem \<le> 8 \<Longrightarrow> encode_run w t rem = write_fields w [(t, 4), (0, 1), (rem - 1, 3)]"
  by (subst encode_run.simps) (simp add: encode_run_nonpos Let_def)

lemma encode_run_ext:
  "8 < rem \<Longrightarrow> encode_run w t rem =
     encode_run (write_fields w [(t, 4), (1, 1), (7, 3), (choose_M rem 8, 5)]) t (rem - 8 * (choose_M rem 8 + 1))"
  using extended_choice[of rem] by (subst encode_run.simps) (simp add: Let_def)

lemma write_fields_append: "write_fields w (fs @ gs) = write_fields (write_fields w fs) gs"
  by (induction w fs rule: write_fields.induct) simp_all

lemma split_run_props:
  "Fallback r \<notin> set (split_run rem)
   \<and> (\<forall>s \<in> set (split_run rem). 1 \<le> sub_run_chunks s \<and> sub_run_chunks s \<le> 256)
   \<and> (0 \<le> rem \<longrightarrow> sum_list (map sub_run_chunks (split_run rem)) = rem)
   \<and> (\<forall>s \<in> set (split_run rem). (\<exists>k. s = ShortForm k \<and> 1 \<le> k \<and> k \<le> 8) \<or> (\<exists>M. s = Extended 8 M \<and> 0 \<le> M \<and> M \<le> 31))"
proof (induction rem rule: split_run.induct)
  case (1 rem)
  consider "rem \<le> 0" | "0 < rem" "rem \<le> 8" | "8 < rem" by linarith
  then show ?case
  proof cases
    case 1
    then show ?thesis by (auto simp: split_run_nonpos)
  next
    case 2
    then show ?thesis by (simp add: split_run_short)
  next
    case 3
    note ec = extended_choice[OF 3]
    have g: "0 < rem" "\<not> rem \<le> 8" "\<not> choose_M rem (choose_small_run rem) < 0"
      using 3 ec by simp_all
    have ih: "Fallback r \<notin> set (split_run (rem - 8 * (choose_M rem 8 + 1)))
   \<and> (\<forall>s \<in> set (split_run (rem - 8 * (choose_M rem 8 + 1))). 1 \<le> sub_run_chunks s \<and> sub_run_chunks s \<le> 256)
   \<and> (0 \<le> rem - 8 * (choose_M rem 8 + 1) \<longrightarrow> sum_list (map sub_run_chunks (split_run (rem - 8 * (choose_M rem 8 + 1)))) = rem - 8 * (choose_M rem 8 + 1))
   \<and> (\<forall>s \<in> set (split_run (rem - 8 * (choose_M rem 8 + 1))). (\<exists>k. s = ShortForm k \<and> 1 \<le> k \<and> k \<le> 8) \<or> (\<exists>M. s = Extended 8 M \<and> 0 \<le> M \<and> M \<le> 31))"
      using "1.IH"(3)[OF g(1) g(2) refl refl g(3)] ec(1) by simp
    show ?thesis
      using ih ec by (simp add: split_run_ext[OF 3])
  qed
qed

lemma encode_run_fields:
  "encode_run w t rem = write_fields w (concat (map (sub_run_fields t) (split_run rem)))"
proof (induction rem arbitrary: w rule: split_run.induct)
  case (1 rem)
  consider "rem \<le> 0" | "0 < rem" "rem \<le> 8" | "8 < rem" by linarith
  then show ?case
  proof cases
    case 1
    then show ?thesis by (simp add: split_run_nonpos encode_run_nonpos)
  next
    case 2
    then show ?thesis by (simp add: split_run_short encode_run_short)
  next
    case 3
    note ec = extended_choice[OF 3]
    have g: "0 < rem" "\<not> rem \<le> 8" "\<not> choose_M rem (choose_small_run rem) < 0"
      using 3 ec by simp_all
    note ih = "1.IH"(3)[OF g(1) g(2) refl refl g(3), unfolded ec(1)]
    define R where "R = rem - 8 * (choose_M rem 8 + 1)"
    define W where "W = write_fields w [(t, 4), (1, 1), (7, 3), (choose_M rem 8, 5)]"
    have "encode_run w t rem = encode_run W t R"
      unfolding R_def W_def by (rule encode_run_ext[OF 3])
    also have "\<dots> = write_fields W (concat (map (sub_run_fields t) (split_run R)))"
      unfolding R_def by (rule ih)
    also have "\<dots> = write_fields w (sub_run_fields t (Extended 8 (choose_M rem 8)) @ concat (map (sub_run_fields t) (split_run R)))"
      unfolding W_def write_fields_append by simp
    also have "\<dots> = write_fields w (concat (map (sub_run_fields t) (split_run rem)))"
      unfolding R_def by (simp add: split_run_ext[OF 3])
    finally show ?thesis .
  qed
qed

lemma sstream_Nil: "sstream [] Z = Z"
  by (simp add: sstream_def)

lemma sstream_Cons: "sstream ((v, n) # fs) Z = take_bit n v OR push_bit n (sstream fs Z)"
  by (simp add: sstream_def push_bit_or push_bit_add or.assoc)

lemma sstream_append: "sstream (fs @ gs) Z = sstream fs (sstream gs Z)"
  by (induction fs rule: sval.induct) (simp_all add: sstream_Nil sstream_Cons)

lemma advanced_refl: "wf_reader br \<Longrightarrow> advanced br 0 br"
  by (simp add: advanced_def)

lemma advanced_trans: "advanced br n b1 \<Longrightarrow> advanced b1 m b2 \<Longrightarrow> advanced br (n + m) b2"
  by (auto simp: advanced_def)

lemma read_bits_field:
  assumes "wf_reader br" "rval br = sstream ((v, n) # fs) Z" "n \<le> avail br"
  shows "\<exists>br'. read_bits br n = Inr (take_bit n v, br') \<and> rval br' = sstream fs Z \<and> advanced br n br'"
proof -
  from read_bits_ok[OF assms(1,3)]
  obtain b1 where r: "read_bits br n = Inr (take_bit n (rval br), b1)" "wf_reader b1"
      "rval b1 = drop_bit n (rval br)" "avail b1 = avail br - n" "data b1 = data br"
      "consumed b1 = consumed br + int n" "bitlen br < 8 \<longrightarrow> bitlen b1 < 8" by blast
  have tv: "take_bit n (rval br) = take_bit n v"
    by (simp add: assms(2) sstream_Cons take_bit_push_bit)
  have dv: "drop_bit n (rval br) = sstream fs Z"
    by (simp add: assms(2) sstream_Cons drop_bit_or drop_bit_take_bit drop_bit_push_bit)
  have "advanced br n b1" using r assms(3) by (simp add: advanced_def)
  then show ?thesis using r(1,3) tv dv by auto
qed

lemma take_bit_small: "0 \<le> (v::int) \<Longrightarrow> v < 2 ^ n \<Longrightarrow> take_bit n v = v"
  by (rule take_bit_int_eq_self)

lemma read_run_sub_run:
  assumes wf: "wf_reader br" and rv: "rval br = sstream (sub_run_fields t s) Z"
    and av: "swid (sub_run_fields t s) \<le> avail br" and t: "0 \<le> t" "t \<le> 15" and s: "valid_sub_run s"
  shows "\<exists>br'. read_run br = Inr (t, sub_run_chunks s, br') \<and> rval br' = Z
            \<and> advanced br (swid (sub_run_fields t s)) br'"
proof -
  have tt: "take_bit 4 t = t" using t by (intro take_bit_small) simp_all
  from s consider k where "s = ShortForm k" "1 \<le> k" "k \<le> 8" | M where "s = Extended 8 M" "0 \<le> M" "M \<le> 31"
    by (auto simp: valid_sub_run_def)
  then show ?thesis
  proof cases
    case 1
    have tk: "take_bit 3 (k - 1) = k - 1" using 1 by (intro take_bit_small) simp_all
    have rv1: "rval br = sstream ((t, 4) # [(0, 1), (k - 1, 3)]) Z" using rv 1 by simp
    have a1: "4 \<le> avail br" using av 1 by simp
    from read_bits_field[OF wf rv1 a1] obtain b1 where
      r1: "read_bits br 4 = Inr (t, b1)" "rval b1 = sstream [(0, 1), (k - 1, 3)] Z" "advanced br 4 b1"
      using tt by auto
    have w1: "wf_reader b1" and a2: "1 \<le> avail b1" using r1(3) av 1 by (auto simp: advanced_def)
    from read_bits_field[OF w1 r1(2) a2] obtain b2 where
      r2: "read_bits b1 1 = Inr (0, b2)" "rval b2 = sstream [(k - 1, 3)] Z" "advanced b1 1 b2"
      by auto
    have w2: "wf_reader b2" and a3: "3 \<le> avail b2" using r1(3) r2(3) av 1 by (auto simp: advanced_def)
    from read_bits_field[OF w2 r2(2) a3] obtain b3 where
      r3: "read_bits b2 3 = Inr (k - 1, b3)" "rval b3 = sstream [] Z" "advanced b2 3 b3"
      using tk by auto
    have rr: "read_run br = Inr (t, k, b3)"
      by (simp add: read_run_def r1(1) r2(1) r3(1) del: One_nat_def)
    have "advanced br (4 + 1 + 3) b3"
      by (intro advanced_trans[OF advanced_trans[OF r1(3) r2(3)] r3(3)])
    then show ?thesis using rr r3(2) 1 by (simp add: sstream_Nil)
  next
    case 2
    have tm: "take_bit 5 M = M" using 2 by (intro take_bit_small) simp_all
    have rv1: "rval br = sstream ((t, 4) # [(1, 1), (7, 3), (M, 5)]) Z" using rv 2 by simp
    have a1: "4 \<le> avail br" using av 2 by simp
    from read_bits_field[OF wf rv1 a1] obtain b1 where
      r1: "read_bits br 4 = Inr (t, b1)" "rval b1 = sstream [(1, 1), (7, 3), (M, 5)] Z" "advanced br 4 b1"
      using tt by auto
    have w1: "wf_reader b1" and a2: "1 \<le> avail b1" using r1(3) av 2 by (auto simp: advanced_def)
    from read_bits_field[OF w1 r1(2) a2] obtain b2 where
      r2: "read_bits b1 1 = Inr (1, b2)" "rval b2 = sstream [(7, 3), (M, 5)] Z" "advanced b1 1 b2"
      by auto
    have w2: "wf_reader b2" and a3: "3 \<le> avail b2" using r1(3) r2(3) av 2 by (auto simp: advanced_def)
    from read_bits_field[OF w2 r2(2) a3] obtain b3 where
      r3: "read_bits b2 3 = Inr (7, b3)" "rval b3 = sstream [(M, 5)] Z" "advanced b2 3 b3"
      by auto
    have w3: "wf_reader b3" and a4: "5 \<le> avail b3" using r1(3) r2(3) r3(3) av 2 by (auto simp: advanced_def)
    from read_bits_field[OF w3 r3(2) a4] obtain b4 where
      r4: "read_bits b3 5 = Inr (M, b4)" "rval b4 = sstream [] Z" "advanced b3 5 b4"
      using tm by auto
    have rr: "read_run br = Inr (t, 8 * (M + 1), b4)"
      by (simp add: read_run_def r1(1) r2(1) r3(1) r4(1) del: One_nat_def)
    have "advanced br (4 + 1 + 3 + 5) b4"
      by (intro advanced_trans[OF advanced_trans[OF advanced_trans[OF r1(3) r2(3)] r3(3)] r4(3)])
    then show ?thesis using rr r4(2) 2 by (simp add: sstream_Nil)
  qed
qed

lemma type_positions_append:
  "type_positions home (xs @ ys) off =
     type_positions home xs off @ type_positions home ys (off + length (concat (map (type_chunk home) xs)))"
  by (induction xs arbitrary: off) (simp_all add: add.assoc)

lemma expand_home_concat: "expand_home k h r = r @ concat (replicate k h)"
  by (induction k arbitrary: r) simp_all

lemma type_positions_home: "t \<noteq> 15 \<Longrightarrow> type_positions home (replicate k t) off = []"
  by (induction k arbitrary: off) simp_all

lemma expand_home_eq:
  "t \<noteq> 15 \<Longrightarrow> expand_home k (home ! nat t) r = r @ concat (map (type_chunk home) (replicate k t))"
  by (simp add: expand_home_concat type_chunk_def)

lemma expand_extras_eq:
  "expand_extras k r e = (r @ concat (map (type_chunk home) (replicate k 15)),
                          e @ type_positions home (replicate k 15) (length r))"
proof (induction k arbitrary: r e)
  case 0
  then show ?case by simp
next
  case (Suc k)
  have "expand_extras (Suc k) r e = expand_extras k (r @ replicate CHUNK_SIZE 0) (e @ [length r])"
    by simp
  also have "\<dots> = ((r @ replicate CHUNK_SIZE 0) @ concat (map (type_chunk home) (replicate k 15)),
                          (e @ [length r]) @ type_positions home (replicate k 15) (length (r @ replicate CHUNK_SIZE 0)))"
    by (rule Suc.IH)
  also have "\<dots> = (r @ concat (map (type_chunk home) (replicate (Suc k) 15)),
                          e @ type_positions home (replicate (Suc k) 15) (length r))"
    by (simp add: type_chunk_def)
  finally show ?case .
qed

lemma decode_runs_done:
  "\<not> x < int cc \<Longrightarrow> decode_runs home cc br r e x = Inr (br, r, e, x)"
  by (subst decode_runs.simps) simp

lemma decode_runs_step:
  assumes "x < int cc" "read_run br = Inr (t, run, br')" "t \<noteq> 15 \<longrightarrow> nat t < length home"
  shows "decode_runs home cc br r e x =
           decode_runs home cc br' (r @ concat (map (type_chunk home) (replicate (nat run) t)))
              (e @ type_positions home (replicate (nat run) t) (length r)) (x + run)"
proof (cases "t = 15")
  case True
  show ?thesis
    by (subst decode_runs.simps) (simp add: assms True expand_extras_eq[of _ _ _ home])
next
  case False
  show ?thesis
    using assms(3) False
    by (subst decode_runs.simps) (simp add: assms(1,2) False expand_home_eq type_positions_home)
qed

lemma valid_sub_run_chunks: "valid_sub_run s \<Longrightarrow> 1 \<le> sub_run_chunks s"
  by (auto simp: valid_sub_run_def)

lemma gfields_Cons: "gfields ((t, s) # gs) = sub_run_fields t s @ gfields gs"
  by (simp add: gfields_def)

lemma gtypes_Cons: "gtypes ((t, s) # gs) = replicate (nat (sub_run_chunks s)) t @ gtypes gs"
  by (simp add: gtypes_def)

lemma decode_groups:
  assumes "wf_reader br" "rval br = sstream (gfields gs) Z" "swid (gfields gs) \<le> avail br"
    "\<forall>g \<in> set gs. valid_group home g" "x + int (length (gtypes gs)) \<le> int cc"
  shows "\<exists>br'. decode_runs home cc br r e x =
           decode_runs home cc br' (r @ concat (map (type_chunk home) (gtypes gs)))
              (e @ type_positions home (gtypes gs) (length r)) (x + int (length (gtypes gs)))
         \<and> rval br' = Z \<and> advanced br (swid (gfields gs)) br'"
  using assms
proof (induction gs arbitrary: br r e x)
  case Nil
  then have "rval br = Z" "advanced br 0 br" by (simp_all add: gfields_def sstream_Nil advanced_refl)
  then show ?case by (intro exI[of _ br]) (simp add: gfields_def gtypes_def)
next
  case (Cons g gs)
  obtain t s where g: "g = (t, s)" by (cases g)
  have vg: "0 \<le> t" "t \<le> 15" "valid_sub_run s" "t \<noteq> 15 \<longrightarrow> nat t < length home"
    using Cons.prems(4) by (simp_all add: g valid_group_def)
  let ?n = "swid (sub_run_fields t s)"
  have rv: "rval br = sstream (sub_run_fields t s) (sstream (gfields gs) Z)"
    using Cons.prems(2) by (simp add: g gfields_Cons sstream_append)
  have av: "?n \<le> avail br" using Cons.prems(3) by (simp add: g gfields_Cons swid_append)
  from read_run_sub_run[OF Cons.prems(1) rv av vg(1,2,3)] obtain b1 where
    r1: "read_run br = Inr (t, sub_run_chunks s, b1)" "rval b1 = sstream (gfields gs) Z" "advanced br ?n b1"
    by blast
  let ?k = "nat (sub_run_chunks s)"
  have k: "int ?k = sub_run_chunks s" "1 \<le> sub_run_chunks s" using valid_sub_run_chunks[OF vg(3)] by simp_all
  have len: "int (length (gtypes (g # gs))) = sub_run_chunks s + int (length (gtypes gs))"
    using k by (simp add: g gtypes_Cons)
  have lt: "x < int cc" using Cons.prems(5) len k by simp
  let ?r = "r @ concat (map (type_chunk home) (replicate ?k t))"
  let ?e = "e @ type_positions home (replicate ?k t) (length r)"
  have st: "decode_runs home cc br r e x = decode_runs home cc b1 ?r ?e (x + sub_run_chunks s)"
    by (rule decode_runs_step[OF lt r1(1) vg(4)])
  have w1: "wf_reader b1" and a1: "swid (gfields gs) \<le> avail b1"
    using r1(3) Cons.prems(3) by (auto simp: advanced_def g gfields_Cons swid_append)
  have v1: "\<forall>g \<in> set gs. valid_group home g" using Cons.prems(4) by simp
  have x1: "x + sub_run_chunks s + int (length (gtypes gs)) \<le> int cc" using Cons.prems(5) len by simp
  from Cons.IH[OF w1 r1(2) a1 v1 x1, of ?r ?e] obtain b2 where
    r2: "decode_runs home cc b1 ?r ?e (x + sub_run_chunks s) =
           decode_runs home cc b2 (?r @ concat (map (type_chunk home) (gtypes gs)))
              (?e @ type_positions home (gtypes gs) (length ?r)) (x + sub_run_chunks s + int (length (gtypes gs)))"
        "rval b2 = Z" "advanced b1 (swid (gfields gs)) b2"
    by blast
  have adv: "advanced br (swid (gfields (g # gs))) b2"
    using advanced_trans[OF r1(3) r2(3)] by (simp add: g gfields_Cons swid_append)
  have e1: "?r @ concat (map (type_chunk home) (gtypes gs)) = r @ concat (map (type_chunk home) (gtypes (g # gs)))"
    by (simp add: g gtypes_Cons)
  have e2: "?e @ type_positions home (gtypes gs) (length ?r) = e @ type_positions home (gtypes (g # gs)) (length r)"
    by (simp add: g gtypes_Cons type_positions_append)
  have e3: "x + sub_run_chunks s + int (length (gtypes gs)) = x + int (length (gtypes (g # gs)))"
    using len by simp
  show ?case
    apply (rule exI[of _ b2])
    apply (intro conjI)
      apply (simp only: st r2(1) e1 e2 e3)
     apply (rule r2(2))
    apply (rule adv)
    done
qed

lemma run_end_props:
  "j \<le> run_end types t j \<and> (j \<le> length types \<longrightarrow> run_end types t j \<le> length types)
     \<and> (\<forall>k. j \<le> k \<and> k < run_end types t j \<longrightarrow> types ! k = t)"
proof (induction types t j rule: run_end.induct)
  case (1 types t j)
  show ?case
  proof (cases "j < length types \<and> types ! j = t")
    case True
    then have e: "run_end types t j = run_end types t (j + 1)" by (subst run_end.simps) simp
    have "\<And>k. j \<le> k \<Longrightarrow> k \<noteq> j \<Longrightarrow> j + 1 \<le> k" by simp
    then show ?thesis using "1.IH"[OF True] True unfolding e
      by (metis Suc_eq_plus1 Suc_leD Suc_leI)
  next
    case False
    then have "run_end types t j = j" by (subst run_end.simps) auto
    then show ?thesis by simp
  qed
qed

lemma replicate_chunks:
  "\<forall>s \<in> set ss. 0 \<le> sub_run_chunks s \<Longrightarrow>
   concat (map (\<lambda>s. replicate (nat (sub_run_chunks s)) t) ss) = replicate (nat (sum_list (map sub_run_chunks ss))) t"
proof (induction ss)
  case Nil
  then show ?case by simp
next
  case (Cons s ss)
  have "0 \<le> sum_list (map sub_run_chunks ss)" using Cons.prems by (intro sum_list_nonneg) auto
  then show ?case using Cons by (simp add: nat_add_distrib replicate_add)
qed

lemma gtypes_split_run:
  assumes "0 \<le> run"
  shows "gtypes (map (Pair t) (split_run run)) = replicate (nat run) t"
proof -
  note p = split_run_props[of undefined run]
  have nn: "\<forall>s \<in> set (split_run run). 0 \<le> sub_run_chunks s" using p by auto
  have sm: "sum_list (map sub_run_chunks (split_run run)) = run" using p assms by simp
  show ?thesis
    using replicate_chunks[OF nn, of t] by (simp add: gtypes_def map_map comp_def sm)
qed

lemma gfields_split_run:
  "gfields (map (Pair t) (split_run run)) = concat (map (sub_run_fields t) (split_run run))"
  by (simp add: gfields_def map_map comp_def)

lemma valid_split_run:
  assumes "0 \<le> t" "t \<le> 15" "16 \<le> length home"
  shows "\<forall>g \<in> set (map (Pair t) (split_run run)). valid_group home g"
proof -
  have "\<forall>s \<in> set (split_run run). valid_sub_run s"
    using split_run_props[of undefined run] unfolding valid_sub_run_def by blast
  then show ?thesis using assms by (auto simp: valid_group_def)
qed

lemma gfields_append: "gfields (gs @ hs) = gfields gs @ gfields hs"
  by (simp add: gfields_def)

lemma gtypes_append: "gtypes (gs @ hs) = gtypes gs @ gtypes hs"
  by (simp add: gtypes_def)

lemma encode_loop_done: "\<not> i < length types \<Longrightarrow> encode_loop types i w = w"
  by (subst encode_loop.simps) simp

lemma encode_loop_step:
  "i < length types \<Longrightarrow> encode_loop types i w =
     encode_loop types (run_end types (types ! i) (i + 1))
        (encode_run w (types ! i) (int (run_end types (types ! i) (i + 1)) - int i))"
  by (subst encode_loop.simps) (simp add: Let_def)

lemma encode_loop_groups:
  assumes "\<forall>t \<in> set types. 0 \<le> t \<and> t \<le> 15" "16 \<le> length home"
  shows "\<exists>gs. encode_loop types i w = write_fields w (gfields gs) \<and> gtypes gs = drop i types
            \<and> (\<forall>g \<in> set gs. valid_group home g)"
  using assms(1)
proof (induction types i w rule: encode_loop.induct)
  case (1 types i w)
  note tys = "1.prems"
  show ?case
  proof (cases "i < length types")
    case False
    then have "encode_loop types i w = write_fields w (gfields [])" "gtypes [] = drop i types"
      by (simp_all add: encode_loop_done gfields_def gtypes_def)
    then show ?thesis by (intro exI[of _ "[]"]) simp
  next
    case True
    define t where "t = types ! i"
    define j where "j = run_end types t (i + 1)"
    define run where "run = int j - int i"
    define w' where "w' = encode_run w t run"
    note re = run_end_props[of "i + 1" types t, folded j_def]
    have ij: "i + 1 \<le> j" "j \<le> length types" using re True by simp_all
    have same: "\<forall>k. i \<le> k \<and> k < j \<longrightarrow> types ! k = t"
      using re t_def by (metis Suc_eq_plus1 Suc_leI le_neq_implies_less)
    have tr: "0 \<le> t" "t \<le> 15" using tys True by (simp_all add: t_def)
    have run: "1 \<le> run" "nat run = j - i" using ij by (simp_all add: run_def)
    from "1.IH"[OF True t_def j_def run_def w'_def tys] obtain gs' where
      ih: "encode_loop types j w' = write_fields w' (gfields gs')" "gtypes gs' = drop j types"
          "\<forall>g \<in> set gs'. valid_group home g" by blast
    let ?g = "map (Pair t) (split_run run)"
    have w': "w' = write_fields w (gfields ?g)"
      by (simp add: w'_def encode_run_fields gfields_split_run)
    have "encode_loop types i w = encode_loop types j w'"
      unfolding w'_def run_def j_def t_def by (rule encode_loop_step[OF True])
    also have "\<dots> = write_fields w' (gfields gs')" by (rule ih(1))
    also have "\<dots> = write_fields w (gfields (?g @ gs'))"
      by (simp only: w' gfields_append write_fields_append)
    finally have e: "encode_loop types i w = write_fields w (gfields (?g @ gs'))" .
    have "take (j - i) (drop i types) = replicate (j - i) t"
      using same ij by (intro nth_equalityI) auto
    moreover have "drop (j - i) (drop i types) = drop j types" using ij by simp
    ultimately have "drop i types = replicate (j - i) t @ drop j types"
      by (metis append_take_drop_id)
    then have ty: "gtypes (?g @ gs') = drop i types"
      using run by (simp add: gtypes_append gtypes_split_run ih(2))
    have v: "\<forall>g \<in> set (?g @ gs'). valid_group home g"
      using valid_split_run[OF tr assms(2), of run] ih(3) by auto
    show ?thesis using e ty v by blast
  qed
qed

lemma write_bits_as_fields: "write_bits w v n = write_fields w [(v, n)]"
  by simp

lemma encode_bitstream_fields:
  assumes "encode_loop types 0 ([], 0, 0) = write_fields ([], 0, 0) fs"
  shows "le_int (encode_bitstream types) = sval (fs @ [(511, 9)])"
    "8 * length (encode_bitstream types) = 8 * ((swid fs + 9 + 7) div 8)"
proof -
  let ?ini = "([], 0, 0) :: bitwriter"
  let ?w = "write_fields ?ini (fs @ [(511, 9)])"
  have eb: "encode_bitstream types = finish_bits ?w"
    by (simp add: encode_bitstream_def assms write_fields_append)
  have w: "wf_writer ?w" "wval ?w = sval (fs @ [(511, 9)])" "wlen ?w = swid (fs @ [(511, 9)])" "wbits ?w < 8"
    using write_fields_ok[of ?ini "fs @ [(511, 9)]"] by simp_all
  note fb = finish_bits_ok[OF w(1) w(4)]
  show "le_int (encode_bitstream types) = sval (fs @ [(511, 9)])"
    unfolding eb by (simp only: fb(1) w(2))
  show "8 * length (encode_bitstream types) = 8 * ((swid fs + 9 + 7) div 8)"
    unfolding eb by (simp add: fb(2) w(3) swid_append)
qed

lemma reader_on_stream:
  assumes "le_int bs = sval fs" "swid fs \<le> 8 * length bs"
  shows "wf_reader (BitReader_init (pre @ bs @ suf) (length pre))"
    "rval (BitReader_init (pre @ bs @ suf) (length pre))
       = sstream fs (push_bit (8 * length bs - swid fs) (le_int suf))"
    "avail (BitReader_init (pre @ bs @ suf) (length pre)) = 8 * length bs + 8 * length suf"
    "consumed (BitReader_init (pre @ bs @ suf) (length pre)) = 8 * int (length pre)"
    "bitlen (BitReader_init (pre @ bs @ suf) (length pre)) = 0"
    "data (BitReader_init (pre @ bs @ suf) (length pre)) = pre @ bs @ suf"
proof -
  let ?br = "BitReader_init (pre @ bs @ suf) (length pre)"
  show "wf_reader ?br" by (simp add: wf_reader_def BitReader_init_def)
  have "push_bit (swid fs) (push_bit (8 * length bs - swid fs) (le_int suf)) = push_bit (8 * length bs) (le_int suf)"
    using assms(2) by (simp add: push_bit_eq_mult flip: power_add)
  then show "rval ?br = sstream fs (push_bit (8 * length bs - swid fs) (le_int suf))"
    by (simp add: rval_def BitReader_init_def le_int_append assms(1) sstream_def)
  show "avail ?br = 8 * length bs + 8 * length suf" by (simp add: avail_def BitReader_init_def)
  show "consumed ?br = 8 * int (length pre)" by (simp add: consumed_def BitReader_init_def)
  show "bitlen ?br = 0" by (simp add: BitReader_init_def)
  show "data ?br = pre @ bs @ suf" by (simp add: BitReader_init_def)
qed

lemma decode_encoded:
  assumes "\<forall>t \<in> set types. 0 \<le> t \<and> t \<le> 15" "16 \<le> length home"
  shows "\<exists>br' n Z. decode_runs home (length types) (BitReader_init (pre @ encode_bitstream types @ suf) (length pre)) [] [] 0
            = Inr (br', concat (map (type_chunk home) types), type_positions home types 0, int (length types))
          \<and> rval br' = sstream [(511, 9)] (push_bit Z (le_int suf))
          \<and> advanced (BitReader_init (pre @ encode_bitstream types @ suf) (length pre)) n br'
          \<and> 8 * length (encode_bitstream types) = 8 * ((n + 9 + 7) div 8)"
proof -
  let ?ini = "([], 0, 0) :: bitwriter"
  let ?bs = "encode_bitstream types"
  let ?br = "BitReader_init (pre @ ?bs @ suf) (length pre)"
  from encode_loop_groups[OF assms, of 0 ?ini] obtain gs where
    gs: "encode_loop types 0 ?ini = write_fields ?ini (gfields gs)" "gtypes gs = types"
        "\<forall>g \<in> set gs. valid_group home g" by auto
  let ?n = "swid (gfields gs)"
  note eb = encode_bitstream_fields[OF gs(1)]
  have le: "swid (gfields gs @ [(511, 9)]) \<le> 8 * length ?bs" using eb(2) by (simp add: swid_append)
  note rd = reader_on_stream[OF eb(1) le, of pre suf]
  let ?Z = "8 * length ?bs - swid (gfields gs @ [(511, 9)])"
  have rv: "rval ?br = sstream (gfields gs) (sstream [(511, 9)] (push_bit ?Z (le_int suf)))"
    using rd(2) by (simp only: sstream_append)
  have av: "?n \<le> avail ?br" using rd(3) le by (simp add: swid_append)
  have x: "0 + int (length (gtypes gs)) \<le> int (length types)" by (simp add: gs(2))
  from decode_groups[OF rd(1) rv av gs(3) x, of "[]" "[]"] obtain br' where
    d: "decode_runs home (length types) ?br [] [] 0 =
           decode_runs home (length types) br' ([] @ concat (map (type_chunk home) (gtypes gs)))
              ([] @ type_positions home (gtypes gs) (length ([]::byte list))) (0 + int (length (gtypes gs)))"
       "rval br' = sstream [(511, 9)] (push_bit ?Z (le_int suf))" "advanced ?br ?n br'"
    by blast
  have "decode_runs home (length types) ?br [] [] 0
          = Inr (br', concat (map (type_chunk home) types), type_positions home types 0, int (length types))"
    unfolding d(1) by (simp add: gs(2) decode_runs_done)
  then show ?thesis using d(2,3) eb(2) by blast
qed


section \<open>Write then read\<close>

text \<open>Claim C4. Whatever sequence of (value, width) fields is written with \<open>write_bits\<close>
  from an empty writer and flushed, reading the same widths in the same order from the
  position where the bytes start returns each value masked to its width, wherever the
  bytes sit in the data. And a \<open>read_bits\<close> that asks for more bits than the reader
  still has (buffered bits plus eight per unread byte) raises \<open>truncated bitstream\<close>.\<close>

theorem bits_roundtrip:
  "(\<exists>br'. read_fields (BitReader_init (pre @ finish_bits (write_fields ([], 0, 0) fs) @ suf) (length pre))
            (map snd fs) = Inr (map (\<lambda>(v, n). v AND (push_bit n 1 - 1)) fs, br'))
   \<and> (bitlen br + 8 * (length (data br) - pos br) < n \<longrightarrow>
        (\<exists>br'. read_bits br n = Inl (SystemExit ''truncated bitstream'', br')))"
proof
  let ?ini = "([], 0, 0) :: bitwriter"
  let ?w = "write_fields ?ini fs"
  let ?bs = "finish_bits ?w"
  let ?br = "BitReader_init (pre @ ?bs @ suf) (length pre)"
  have w: "wf_writer ?w" "wval ?w = sval fs" "wlen ?w = swid fs" "wbits ?w < 8"
    using write_fields_ok[of ?ini fs] by simp_all
  note fb = finish_bits_ok[OF w(1) w(4)]
  have wf: "wf_reader ?br" by (simp add: wf_reader_def BitReader_init_def)
  have rv: "rval ?br = sval fs OR push_bit (8 * length ?bs) (le_int suf)"
    by (simp add: rval_def BitReader_init_def le_int_append fb(1) w(2))
  have k1: "swid fs \<le> 8 * length ?bs" using fb(2) w(3) by simp
  have k2: "8 * length ?bs \<le> avail ?br" by (simp add: avail_def BitReader_init_def)
  have m: "(\<lambda>(v, n). v AND (push_bit n 1 - 1)) = (\<lambda>(v::int, n). take_bit n v)"
    by (simp add: take_bit_eq_mask mask_eq_exp_minus_1)
  from read_fields_ok[OF wf rv k1 k2]
  show "\<exists>br'. read_fields ?br (map snd fs) = Inr (map (\<lambda>(v, n). v AND (push_bit n 1 - 1)) fs, br')"
    unfolding m by blast
next
  show "bitlen br + 8 * (length (data br) - pos br) < n \<longrightarrow>
        (\<exists>br'. read_bits br n = Inl (SystemExit ''truncated bitstream'', br'))"
    using read_bits_fail[of br n] by (auto simp: avail_def)
qed

text \<open>The theorem at a concrete stream: four fields between a leading and a trailing
  byte, the last value wider than its field; and a 9-bit read from a single byte.\<close>

theorem bits_roundtrip_witness:
  "(\<exists>br'. read_fields (BitReader_init ([7] @ finish_bits (write_fields ([], 0, 0) [(3, 4), (0, 1), (1, 3), (1023, 9)]) @ [9]) 1)
            [4, 1, 3, 9] = Inr ([3, 0, 1, 511], br'))
   \<and> bitlen (BitReader_init [35] 0) + 8 * (length (data (BitReader_init [35] 0)) - pos (BitReader_init [35] 0)) < 9
   \<and> (\<exists>br'. read_bits (BitReader_init [35] 0) 9 = Inl (SystemExit ''truncated bitstream'', br'))"
proof -
  have h1: "bitlen (BitReader_init [35] 0) + 8 * (length (data (BitReader_init [35] 0)) - pos (BitReader_init [35] 0)) < 9"
    by (simp add: BitReader_init_def)
  have h2: "map (\<lambda>(v, n). v AND (push_bit n 1 - 1)) [(3, 4), (0, 1), (1, 3), (1023::int, 9::nat)] = [3, 0, 1, 511]"
    by simp
  have e1: "length [7::byte] = 1" by simp
  have e2: "map snd [(3::int, 4::nat), (0, 1), (1, 3), (1023, 9)] = [4, 1, 3, 9]" by simp
  note t = bits_roundtrip[of "[7]" "[(3, 4), (0, 1), (1, 3), (1023, 9)]" "[9]" "BitReader_init [35] 0" 9]
  have a: "\<exists>br'. read_fields (BitReader_init ([7] @ finish_bits (write_fields ([], 0, 0) [(3, 4), (0, 1), (1, 3), (1023, 9)]) @ [9]) 1)
            [4, 1, 3, 9] = Inr ([3, 0, 1, 511], br')"
    using conjunct1[OF t] unfolding h2 e1 e2 .
  have b: "\<exists>br'. read_bits (BitReader_init [35] 0) 9 = Inl (SystemExit ''truncated bitstream'', br')"
    by (rule mp[OF conjunct2[OF t] h1])
  show ?thesis by (intro conjI a b h1)
qed


section \<open>Run encoding exactness\<close>

text \<open>Claim C3. For every sequence of Types (values 0 to 15) the bitstream that the
  encoder writes for it, read by the decoder's run loop with the sequence's length as chunk
  count, expands to exactly that sequence, position by position: the restored bytes are
  the chunks of the Types in order and the recorded positions are those of the Type-15
  entries. This holds wherever the bitstream sits in the data. Runs of length 1 and 8 are
  one short form, 9 is an extended form of 8 and a short form of 1, 256 is one extended
  form, and 257 is an extended form of 256 (fields 7 and 31) followed by a short form of
  length 1.\<close>

theorem run_encoding_exact:
  assumes "\<forall>t \<in> set types. 0 \<le> t \<and> t \<le> 15" "length home = 16"
  shows "(\<exists>br'. decode_runs home (length types)
                  (BitReader_init (pre @ encode_bitstream types @ suf) (length pre)) [] [] 0
            = Inr (br', concat (map (type_chunk home) types), type_positions home types 0, int (length types)))
      \<and> split_run 1 = [ShortForm 1] \<and> split_run 8 = [ShortForm 8]
      \<and> split_run 9 = [Extended 8 0, ShortForm 1] \<and> split_run 256 = [Extended 8 31]
      \<and> split_run 257 = [Extended 8 31, ShortForm 1]
      \<and> encode_run w t 257 = write_fields w [(t, 4), (1, 1), (7, 3), (31, 5), (t, 4), (0, 1), (0, 3)]"
proof -
  have h: "16 \<le> length home" using assms(2) by simp
  from decode_encoded[OF assms(1) h, of pre suf]
  have a: "\<exists>br'. decode_runs home (length types)
                  (BitReader_init (pre @ encode_bitstream types @ suf) (length pre)) [] [] 0
            = Inr (br', concat (map (type_chunk home) types), type_positions home types 0, int (length types))"
    by blast
  have s1: "split_run 1 = [ShortForm 1]" "split_run 8 = [ShortForm 8]"
    by (simp_all add: split_run_short)
  have m9: "choose_M 9 8 = 0" and m256: "choose_M 256 8 = 31" and m257: "choose_M 257 8 = 31"
    by (simp_all add: choose_M_def)
  have s9: "split_run 9 = [Extended 8 0, ShortForm 1]"
    by (simp add: split_run_ext m9 split_run_short)
  have s256: "split_run 256 = [Extended 8 31]"
    by (simp add: split_run_ext m256 split_run_nonpos)
  have s257: "split_run 257 = [Extended 8 31, ShortForm 1]"
    by (simp add: split_run_ext m257 split_run_short)
  have e: "encode_run w t 257 = write_fields w [(t, 4), (1, 1), (7, 3), (31, 5), (t, 4), (0, 1), (0, 3)]"
    unfolding encode_run_fields s257 by simp
  show ?thesis by (intro conjI a s1 s9 s256 s257 e)
qed

text \<open>The theorem at the sequence 3, 3, 15, 0 with the example table.\<close>

theorem run_encoding_exact_witness:
  "length (gen_home_from_key example_digest []) = 16
   \<and> (\<exists>br'. decode_runs (gen_home_from_key example_digest []) (length [3, 3, 15, 0::int])
                  (BitReader_init ([] @ encode_bitstream [3, 3, 15, 0] @ []) (length ([]::byte list))) [] [] 0
            = Inr (br', concat (map (type_chunk (gen_home_from_key example_digest [])) [3, 3, 15, 0]),
                   type_positions (gen_home_from_key example_digest []) [3, 3, 15, 0] 0,
                   int (length [3, 3, 15, 0::int])))"
proof -
  have h1: "\<forall>t \<in> set [3, 3, 15, 0]. 0 \<le> t \<and> t \<le> (15::int)" by simp
  have h2: "length (gen_home_from_key example_digest []) = 16" by (simp add: gen_home_from_key_def)
  note t = run_encoding_exact[OF h1 h2, of "[]" "[]"]
  show ?thesis by (intro conjI h2 conjunct1[OF t])
qed


section \<open>The fallback branch\<close>

text \<open>Claim C10. When the loop is past the short-form test (\<open>rem > 8\<close>), \<open>small_run\<close> is 8
  and \<open>M\<close> is not negative, so no iteration takes the \<open>M < 0\<close> fallback, for any
  remaining count; every sub-run the loop emits consumes between 1 and 256 chunks; and
  the bits \<open>encode_run\<close> writes are the fields of exactly these sub-runs.\<close>

theorem fallback_unreachable:
  "(0 < rem \<and> \<not> rem \<le> 8 \<longrightarrow>
      choose_small_run rem = 8 \<and> 0 \<le> choose_M rem (choose_small_run rem))
   \<and> Fallback r \<notin> set (split_run rem)
   \<and> (\<forall>s \<in> set (split_run rem). 1 \<le> sub_run_chunks s \<and> sub_run_chunks s \<le> 256)
   \<and> encode_run w t rem = write_fields w (concat (map (sub_run_fields t) (split_run rem)))"
proof -
  have a: "0 < rem \<and> \<not> rem \<le> 8 \<longrightarrow> choose_small_run rem = 8 \<and> 0 \<le> choose_M rem (choose_small_run rem)"
    using extended_choice(1,2)[of rem] by auto
  note p = split_run_props[of r rem]
  show ?thesis
    by (intro conjI a conjunct1[OF p] conjunct1[OF conjunct2[OF p]] encode_run_fields)
qed

text \<open>The theorem at a run of 257.\<close>

theorem fallback_unreachable_witness:
  "(0 < (257::int) \<and> \<not> (257::int) \<le> 8)
   \<and> choose_small_run 257 = 8 \<and> 0 \<le> choose_M 257 (choose_small_run 257)
   \<and> split_run 257 = [Extended 8 31, ShortForm 1]
   \<and> 1 \<le> sub_run_chunks (Extended 8 31) \<and> sub_run_chunks (Extended 8 31) \<le> 256
   \<and> 1 \<le> sub_run_chunks (ShortForm 1) \<and> sub_run_chunks (ShortForm 1) \<le> 256"
proof -
  have h: "0 < (257::int) \<and> \<not> (257::int) \<le> 8" by simp
  note t = fallback_unreachable[of 257 undefined undefined undefined]
  have m257: "choose_M 257 8 = 31" by (simp add: choose_M_def)
  have s: "split_run 257 = [Extended 8 31, ShortForm 1]"
    by (simp add: split_run_ext m257 split_run_short)
  have c: "choose_small_run 257 = 8 \<and> 0 \<le> choose_M 257 (choose_small_run 257)"
    by (rule mp[OF conjunct1[OF t] h])
  have q: "\<forall>s \<in> set [Extended 8 31, ShortForm 1]. 1 \<le> sub_run_chunks s \<and> sub_run_chunks s \<le> 256"
    using conjunct1[OF conjunct2[OF conjunct2[OF t]]] unfolding s .
  have q1: "1 \<le> sub_run_chunks (Extended 8 31) \<and> sub_run_chunks (Extended 8 31) \<le> 256"
    using q by (rule bspec) simp
  have q2: "1 \<le> sub_run_chunks (ShortForm 1) \<and> sub_run_chunks (ShortForm 1) \<le> 256"
    using q by (rule bspec) simp
  show ?thesis
    by (intro conjI conjunct1[OF h] conjunct2[OF h] conjunct1[OF c] conjunct2[OF c] s
          conjunct1[OF q1] conjunct2[OF q1] conjunct1[OF q2] conjunct2[OF q2])
qed


section \<open>The chunker\<close>

text \<open>Claim C9. For an input of length \<open>L\<close>, \<open>chunk_file\<close> returns \<open>L\<close> together with
  chunks whose concatenation is the input followed by \<open>pad = (-L) mod CHUNK_SIZE\<close> zero
  bytes; every chunk has exactly \<open>CHUNK_SIZE\<close> bytes, there are \<open>(L + pad) / CHUNK_SIZE\<close> of
  them, none when \<open>L = 0\<close>, and \<open>pad\<close> is 0 exactly when \<open>CHUNK_SIZE\<close> divides \<open>L\<close>.\<close>

theorem chunk_file_spec:
  "snd (chunk_file d) = length d
   \<and> chunk_pad (length d) = nat ((- int (length d)) mod int CHUNK_SIZE)
   \<and> concat (fst (chunk_file d)) = d @ replicate (chunk_pad (length d)) 0
   \<and> (\<forall>c \<in> set (fst (chunk_file d)). length c = CHUNK_SIZE)
   \<and> length (fst (chunk_file d)) * CHUNK_SIZE = length d + chunk_pad (length d)
   \<and> (length d = 0 \<longrightarrow> fst (chunk_file d) = [])
   \<and> (chunk_pad (length d) = 0 \<longleftrightarrow> CHUNK_SIZE dvd length d)"
proof -
  let ?pad = "chunk_pad (length d)"
  let ?d = "d @ replicate ?pad 0"
  have cf: "chunk_file d = (split_chunks ?d, length d)"
    by (simp add: chunk_file_def Let_def)
  have dv: "18 dvd length ?d" using chunk_pad_props(2)[of "length d"] by simp
  note full = split_chunks_full[OF dv]
  have e: "length d = 0 \<longrightarrow> split_chunks ?d = []"
    using full(2) chunk_pad_props(3)[of "length d"] by auto
  have f: "fst (chunk_file d) = split_chunks ?d" "snd (chunk_file d) = length d"
    by (simp_all add: cf)
  have l: "length (split_chunks ?d) * CHUNK_SIZE = length d + ?pad"
    using full(2) by (simp add: CHUNK_SIZE_def)
  have a: "\<forall>c \<in> set (split_chunks ?d). length c = CHUNK_SIZE"
    using full(1) by (simp add: CHUNK_SIZE_def)
  have z: "?pad = 0 \<longleftrightarrow> CHUNK_SIZE dvd length d"
    using chunk_pad_props(3)[of "length d"] by (simp add: CHUNK_SIZE_def)
  have p: "?pad = nat ((- int (length d)) mod int CHUNK_SIZE)" by (simp add: chunk_pad_def)
  show ?thesis unfolding f
    by (intro conjI refl p split_chunks_concat a l e z)
qed

text \<open>The theorem at the empty input, and the chunker run on a three-byte input.\<close>

theorem chunk_file_spec_witness:
  "chunk_file [1, 2, 3] = ([[1, 2, 3, 0, 0, 0, 0, 0, 0, 0, 0, 0, 0, 0, 0, 0, 0, 0]], 3)
   \<and> chunk_pad 3 = 15 \<and> chunk_file [] = ([], 0)"
proof -
  have a: "chunk_pad 3 = 15" by (simp add: chunk_pad_def CHUNK_SIZE_def)
  have b: "chunk_file [1, 2, 3] = ([[1, 2, 3, 0, 0, 0, 0, 0, 0, 0, 0, 0, 0, 0, 0, 0, 0, 0]], 3)"
    by code_simp
  have c: "fst (chunk_file []) = []" using chunk_file_spec[of "[]"] by simp
  have d: "snd (chunk_file []) = 0" using chunk_file_spec[of "[]"] by simp
  from c d have "chunk_file [] = ([], 0)" by (simp add: prod_eq_iff)
  with a b show ?thesis by simp
qed

end
